theory Spec2Isabelle
  imports Main "HOL-Library.Word"
begin

section \<open>nfs-lockfile-counter: the scan of the NFSv4 lock-file hash table\<close>

text \<open>
  The program \<^verbatim>\<open>nfs-lockfile-counter.c\<close> opens the running kernel with libkvm,
  resolves the two symbols \<^verbatim>\<open>_nfslockhash\<close> and \<^verbatim>\<open>_nfsrv_lockhashsize\<close>, reads
  the number of buckets and the pointer to the bucket array, walks every bucket chain
  and counts the \<^verbatim>\<open>nfslockfile\<close> structs it meets and those it considers lost.

  The embedding follows \<^verbatim>\<open>main\<close> statement by statement. The target is FreeBSD on
  amd64 (LP64, little-endian): \<^verbatim>\<open>int\<close> is a 32-bit word, \<^verbatim>\<open>unsigned long\<close> and every
  kernel address a 64-bit word. Kernel memory is read as bytes and decoded at the
  offsets of the struct that the program declares.
\<close>

subsection \<open>Machine types\<close>

type_synonym byte = "8 word"
type_synonym c_int = "32 word"
type_synonym c_ulong = "64 word"

text \<open>The value of a little-endian byte sequence, least significant byte first.\<close>

fun le_nat :: "byte list \<Rightarrow> nat" where
  "le_nat [] = 0"
| "le_nat (b # bs) = unat b + 256 * le_nat bs"

definition le_word :: "byte list \<Rightarrow> 'a::len word" where
  "le_word bs = of_nat (le_nat bs)"

subsection \<open>The struct read from the kernel\<close>

text \<open>
  \<^verbatim>\<open>struct nfslockfile\<close> as the program declares it: five list heads and the hash
  list entry, all kernel addresses held in \<^verbatim>\<open>unsigned long\<close>, then the file handle,
  the local-lock serialiser and the use count.
\<close>

record nfslockfile =
  lf_open :: c_ulong
  lf_deleg :: c_ulong
  lf_lock :: c_ulong
  lf_locallock :: c_ulong
  lf_rollback :: c_ulong
  lf_hash_le_next :: c_ulong
  lf_hash_le_prev :: c_ulong
  lf_fh :: "byte list"
  nfslock_usecnt :: "32 word"
  nfslock_lock :: byte
  lf_usecount :: c_int

text \<open>
  The layout on amd64: seven 8-byte words at offsets 0 to 48, the 28-byte
  \<^verbatim>\<open>fhandle_t\<close> at 56, \<^verbatim>\<open>nfslock_usecnt\<close> at 84, \<^verbatim>\<open>nfslock_lock\<close> at 88 (padded to 92)
  and \<^verbatim>\<open>lf_usecount\<close> at 92, which gives \<^verbatim>\<open>sizeof (struct nfslockfile)\<close> = 96.
\<close>

definition sizeof_nfslockfile :: nat where
  "sizeof_nfslockfile = 96"

definition sizeof_int :: nat where
  "sizeof_int = 4"

definition sizeof_ulong :: nat where
  "sizeof_ulong = 8"

definition field :: "nat \<Rightarrow> nat \<Rightarrow> byte list \<Rightarrow> byte list" where
  "field off len buf = take len (drop off buf)"

definition decode_nfslockfile :: "byte list \<Rightarrow> nfslockfile" where
  "decode_nfslockfile buf =
     \<lparr> lf_open = le_word (field 0 8 buf),
       lf_deleg = le_word (field 8 8 buf),
       lf_lock = le_word (field 16 8 buf),
       lf_locallock = le_word (field 24 8 buf),
       lf_rollback = le_word (field 32 8 buf),
       lf_hash_le_next = le_word (field 40 8 buf),
       lf_hash_le_prev = le_word (field 48 8 buf),
       lf_fh = field 56 28 buf,
       nfslock_usecnt = le_word (field 84 4 buf),
       nfslock_lock = le_word (field 88 1 buf),
       lf_usecount = le_word (field 92 4 buf) \<rparr>"

subsection \<open>libkvm and the kernel image\<close>

text \<open>
  libkvm is a system library, outside the repository. Its three entry points are taken
  with the contract of their manual pages:
  \<^item> \<^verbatim>\<open>kvm_openfiles\<close> returns a descriptor or \<^verbatim>\<open>NULL\<close>;
  \<^item> \<^verbatim>\<open>kvm_nlist\<close> returns -1 when the symbol table cannot be read; otherwise it
    returns the number of names it did not find, and a name it did not find gets
    the value 0;
  \<^item> \<^verbatim>\<open>kvm_read\<close> returns -1 on failure, otherwise the number of bytes it
    transferred, which can be smaller than the number requested; the rest of the
    buffer keeps what it held.
  \<^verbatim>\<open>kvm_geterr\<close> gives the text of the last error; the text is a parameter here.

  The program's local buffers (\<^verbatim>\<open>lockfilehashsize\<close>, \<^verbatim>\<open>lockfilehashtable\<close>, \<^verbatim>\<open>cur\<close>,
  \<^verbatim>\<open>lockfile\<close>) are not initialised before \<^verbatim>\<open>kvm_read\<close> fills them. What they hold
  before they are written for the first time is indeterminate in C; the environment
  supplies it, one value for each variable.

  The environment of a run is therefore: whether \<^verbatim>\<open>kvm_openfiles\<close> returns a descriptor
  (\<open>openfiles_ok\<close>); whether the symbol table can be read (\<open>nlist_readable\<close>) and
  what it holds (\<open>symtab\<close>); the kernel memory (\<open>mem_read kva nbytes\<close> is \<open>None\<close>
  when a read of \<open>nbytes\<close> bytes at \<open>kva\<close> fails, and otherwise the bytes that the
  read transfers); the bytes that each local buffer holds before its first use
  (\<open>uninit\<close>); and the error text after a failed call (\<open>kvm_geterr\<close>). The memory
  does not change during a run.
\<close>

datatype local_var = V_lockfilehashsize | V_lockfilehashtable | V_cur | V_lockfile

datatype kvm_call =
    KvmOpenfiles
  | KvmNlist
  | KvmRead c_ulong nat
  | KvmClose

record kvm_env =
  openfiles_ok :: bool
  nlist_readable :: bool
  symtab :: "string \<Rightarrow> c_ulong option"
  mem_read :: "c_ulong \<Rightarrow> nat \<Rightarrow> byte list option"
  uninit :: "local_var \<Rightarrow> byte list"
  kvm_geterr :: "kvm_call \<Rightarrow> string"

definition kvm_nlist :: "kvm_env \<Rightarrow> string list \<Rightarrow> int \<times> c_ulong list" where
  "kvm_nlist env names =
     (if \<not> nlist_readable env then (- 1, map (\<lambda>_. 0) names)
      else (int (length (filter (\<lambda>n. symtab env n = None) names)),
            map (\<lambda>n. case symtab env n of None \<Rightarrow> 0 | Some a \<Rightarrow> a) names))"

definition kvm_read :: "kvm_env \<Rightarrow> c_ulong \<Rightarrow> byte list \<Rightarrow> nat \<Rightarrow> int \<times> byte list" where
  "kvm_read env kva buf nbytes =
     (case mem_read env kva nbytes of
        None \<Rightarrow> (- 1, buf)
      | Some bs \<Rightarrow>
          (let got = take nbytes bs
           in (int (length got), got @ drop (length got) buf)))"

subsection \<open>Output\<close>

text \<open>\<^verbatim>\<open>printf ("%d")\<close>: the decimal digits of a signed integer.\<close>

fun show_nat :: "nat \<Rightarrow> string" where
  "show_nat n =
     (if n < 10 then [''0123456789'' ! n]
      else show_nat (n div 10) @ [''0123456789'' ! (n mod 10)])"

declare show_nat.simps [simp del]

definition show_int :: "int \<Rightarrow> string" where
  "show_int i = (if i < 0 then ''-'' @ show_nat (nat (- i)) else show_nat (nat i))"

definition newline :: string where
  "newline = [CHR 0x0A]"

text \<open>
  What a run leaves behind: the bytes written to standard output and to standard error,
  the exit status, and the libkvm calls made, in order.
\<close>

record outcome =
  out_stdout :: string
  out_stderr :: string
  exit_code :: int
  kvm_calls :: "kvm_call list"

subsection \<open>The scan\<close>

definition SYMBOL_LOCKHASH :: string where
  "SYMBOL_LOCKHASH = ''_nfslockhash''"

definition SYMBOL_LOCKHASH_SIZE :: string where
  "SYMBOL_LOCKHASH_SIZE = ''_nfsrv_lockhashsize''"


text \<open>
  The variables of \<^verbatim>\<open>main\<close> that the loops change, and the trace of calls.

  The two counters are \<^verbatim>\<open>int\<close>; \<^verbatim>\<open>++\<close> is addition on 32-bit words, which wraps
  from \<^verbatim>\<open>INT_MAX\<close> to \<^verbatim>\<open>INT_MIN\<close> as the amd64 instruction does (ISO C leaves the
  overflow undefined).

  \<^verbatim>\<open>cur\<close> and \<^verbatim>\<open>lockfile\<close> are declared inside the loops and never initialised.
  Each of them is one slot of the frame of \<^verbatim>\<open>main\<close> for the whole run, so at a
  \<^verbatim>\<open>kvm_read\<close> into the variable the slot holds the bytes that the previous iteration
  left there: for \<^verbatim>\<open>lockfile\<close> the struct read before, also across buckets, and for
  \<^verbatim>\<open>cur\<close> the pointer with which the previous chain ended. The state keeps the bytes
  of both slots; before the first read they are those of \<open>uninit\<close>.
\<close>

record scan_state =
  total_lockfiles :: c_int
  leaked_lockfiles :: c_int
  cur_bytes :: "byte list"
  lockfile_bytes :: "byte list"
  calls :: "kvm_call list"

text \<open>A loop ends either by \<^verbatim>\<open>return 1\<close> after a message on stderr, or normally.\<close>

datatype scan_result = Failed string scan_state | Finished scan_state

text \<open>
  The test of line 103: \<^verbatim>\<open>!lockfile.lf_open.lh_first && !lockfile.lf_lock.lh_first\<close>.
\<close>

definition is_lost :: "nfslockfile \<Rightarrow> bool" where
  "is_lost lockfile \<longleftrightarrow> \<not> (lf_open lockfile \<noteq> 0) \<and> \<not> (lf_lock lockfile \<noteq> 0)"

text \<open>The two counters after a successful read of a struct (lines 100 to 105).\<close>

definition count_lockfile :: "nfslockfile \<Rightarrow> scan_state \<Rightarrow> scan_state" where
  "count_lockfile lockfile s =
     (let s1 = s\<lparr>total_lockfiles := total_lockfiles s + 1\<rparr>
      in if is_lost lockfile then s1\<lparr>leaked_lockfiles := leaked_lockfiles s1 + 1\<rparr> else s1)"

definition log_call :: "kvm_call \<Rightarrow> scan_state \<Rightarrow> scan_state" where
  "log_call c s = s\<lparr>calls := calls s @ [c]\<rparr>"

text \<open>
  The inner loop \<^verbatim>\<open>while (cur)\<close> (lines 91 to 108). \<^verbatim>\<open>kvm_read\<close> writes into the
  slot of \<^verbatim>\<open>lockfile\<close>, over what it holds; the struct is decoded from the slot; the
  assignment \<^verbatim>\<open>cur = lockfile.lf_hash.le_next\<close> copies the eight bytes of the field
  into the slot of \<^verbatim>\<open>cur\<close>. The argument \<open>cur\<close> is the value of the variable.
  Nothing bounds the number of iterations, so the function is partial: \<open>None\<close> stands
  for a loop that never ends.
\<close>

partial_function (option) while_cur :: "kvm_env \<Rightarrow> c_ulong \<Rightarrow> scan_state \<Rightarrow> scan_result option" where
  "while_cur env cur s =
     (if cur \<noteq> 0 then
        (case kvm_read env cur (lockfile_bytes s) sizeof_nfslockfile of
           (rc, buf) \<Rightarrow>
             if rc < 0 then
               Some (Failed (''Failed to read lockfile: '' @ kvm_geterr env (KvmRead cur sizeof_nfslockfile))
                       (log_call (KvmRead cur sizeof_nfslockfile) s))
             else
               while_cur env (lf_hash_le_next (decode_nfslockfile buf))
                 (count_lockfile (decode_nfslockfile buf)
                    (log_call (KvmRead cur sizeof_nfslockfile)
                       (s\<lparr>lockfile_bytes := buf, cur_bytes := field 40 8 buf\<rparr>))))
      else Some (Finished s))"

declare while_cur.simps [code]

text \<open>
  The address of a bucket head (line 85): \<^verbatim>\<open>bucket\<close> is converted to
  \<^verbatim>\<open>unsigned long\<close> and the arithmetic is modulo \<open>2 ^ 64\<close>.
\<close>

definition bucket_addr :: "c_ulong \<Rightarrow> c_int \<Rightarrow> c_ulong" where
  "bucket_addr lockfilehashtable bucket = lockfilehashtable + scast bucket * of_nat sizeof_ulong"

text \<open>
  The outer loop \<^verbatim>\<open>for (int bucket = 0; bucket < lockfilehashsize; bucket++)\<close>.
  \<^verbatim>\<open>kvm_read\<close> writes into the slot of \<^verbatim>\<open>cur\<close>, over what it holds.
\<close>

partial_function (option) for_bucket ::
    "kvm_env \<Rightarrow> c_int \<Rightarrow> c_ulong \<Rightarrow> c_int \<Rightarrow> scan_state \<Rightarrow> scan_result option" where
  "for_bucket env lockfilehashsize lockfilehashtable bucket s =
     (if sint bucket < sint lockfilehashsize then
        (case kvm_read env (bucket_addr lockfilehashtable bucket) (cur_bytes s) sizeof_ulong of
           (rc, buf) \<Rightarrow>
             if rc < 0 then
               Some (Failed (''Failed to read bucket pointer: ''
                               @ kvm_geterr env (KvmRead (bucket_addr lockfilehashtable bucket) sizeof_ulong))
                       (log_call (KvmRead (bucket_addr lockfilehashtable bucket) sizeof_ulong) s))
             else
               Option.bind
                 (while_cur env (le_word (take sizeof_ulong buf))
                    (log_call (KvmRead (bucket_addr lockfilehashtable bucket) sizeof_ulong)
                       (s\<lparr>cur_bytes := buf\<rparr>)))
                 (\<lambda>r. case r of
                        Failed msg s' \<Rightarrow> Some (Failed msg s')
                      | Finished s' \<Rightarrow>
                          for_bucket env lockfilehashsize lockfilehashtable (bucket + 1) s'))
      else Some (Finished s))"

declare for_bucket.simps [code]

definition failure :: "string \<Rightarrow> kvm_call list \<Rightarrow> outcome" where
  "failure msg cs = \<lparr> out_stdout = [], out_stderr = msg, exit_code = 1, kvm_calls = cs \<rparr>"

definition report :: "scan_state \<Rightarrow> outcome" where
  "report s =
     \<lparr> out_stdout =
         ''Total file handles: '' @ show_int (sint (total_lockfiles s)) @ newline
         @ ''Lost file handles: '' @ show_int (sint (leaked_lockfiles s)) @ newline,
       out_stderr = [],
       exit_code = 0,
       kvm_calls = calls s \<rparr>"

text \<open>
  \<^verbatim>\<open>main\<close>. Falling off its end is \<^verbatim>\<open>return 0\<close>. The result is \<open>None\<close> when the
  program never returns.
\<close>

definition main :: "kvm_env \<Rightarrow> outcome option" where
  "main env =
     (if \<not> openfiles_ok env then
        Some (failure (''Failed to open files for KVM: '' @ kvm_geterr env KvmOpenfiles) [KvmOpenfiles])
      else
        case kvm_nlist env [SYMBOL_LOCKHASH, SYMBOL_LOCKHASH_SIZE] of
          (rc, symbols) \<Rightarrow>
            if rc < 0 then
              Some (failure (''Failed to read symbols: '' @ kvm_geterr env KvmNlist)
                      [KvmOpenfiles, KvmNlist])
            else
              case kvm_read env (symbols ! 1) (uninit env V_lockfilehashsize) sizeof_int of
                (rc, sizebuf) \<Rightarrow>
                  if rc < 0 then
                    Some (failure (''Failed to read lockfilehash size: ''
                                     @ kvm_geterr env (KvmRead (symbols ! 1) sizeof_int))
                            [KvmOpenfiles, KvmNlist, KvmRead (symbols ! 1) sizeof_int])
                  else
                    case kvm_read env (symbols ! 0) (uninit env V_lockfilehashtable) sizeof_ulong of
                      (rc, tablebuf) \<Rightarrow>
                        if rc < 0 then
                          Some (failure (''Failed to read lockfilehash pointer: ''
                                           @ kvm_geterr env (KvmRead (symbols ! 0) sizeof_ulong))
                                  [KvmOpenfiles, KvmNlist, KvmRead (symbols ! 1) sizeof_int,
                                   KvmRead (symbols ! 0) sizeof_ulong])
                        else
                          Option.bind
                            (for_bucket env (le_word (take sizeof_int sizebuf))
                               (le_word (take sizeof_ulong tablebuf)) 0
                               \<lparr> total_lockfiles = 0, leaked_lockfiles = 0,
                                 cur_bytes = uninit env V_cur,
                                 lockfile_bytes = uninit env V_lockfile,
                                 calls = [KvmOpenfiles, KvmNlist, KvmRead (symbols ! 1) sizeof_int,
                                          KvmRead (symbols ! 0) sizeof_ulong] \<rparr>)
                            (\<lambda>r. case r of
                                   Failed msg s \<Rightarrow> Some (failure msg (calls s))
                                 | Finished s \<Rightarrow> Some (report s)))"

section \<open>What the scan sees in an image\<close>

text \<open>
  The values of the two symbols, and what the two reads before the loops deliver to the
  program, \<open>None\<close> when \<^verbatim>\<open>kvm_read\<close> returns a negative value: the bucket count and
  the address of the bucket array.
\<close>

definition lockhash_addr :: "kvm_env \<Rightarrow> c_ulong" where
  "lockhash_addr env = snd (kvm_nlist env [SYMBOL_LOCKHASH, SYMBOL_LOCKHASH_SIZE]) ! 0"

definition lockhashsize_addr :: "kvm_env \<Rightarrow> c_ulong" where
  "lockhashsize_addr env = snd (kvm_nlist env [SYMBOL_LOCKHASH, SYMBOL_LOCKHASH_SIZE]) ! 1"

definition hashsize_at :: "kvm_env \<Rightarrow> c_int option" where
  "hashsize_at env =
     (case kvm_read env (lockhashsize_addr env) (uninit env V_lockfilehashsize) sizeof_int of
        (rc, buf) \<Rightarrow> if rc < 0 then None else Some (le_word (take sizeof_int buf)))"

definition hashtable_at :: "kvm_env \<Rightarrow> c_ulong option" where
  "hashtable_at env =
     (case kvm_read env (lockhash_addr env) (uninit env V_lockfilehashtable) sizeof_ulong of
        (rc, buf) \<Rightarrow> if rc < 0 then None else Some (le_word (take sizeof_ulong buf)))"

text \<open>
  The reads of the loops. What such a read leaves in its variable depends on what the
  variable held: \<open>head_at env slot t b\<close> is the content of \<^verbatim>\<open>cur\<close> after the read of
  the head of bucket \<open>b\<close> when \<^verbatim>\<open>cur\<close> held \<open>slot\<close>, and
  \<open>lockfile_at env slot cur\<close> the content of \<^verbatim>\<open>lockfile\<close> after the read of the
  struct at \<open>cur\<close> when \<^verbatim>\<open>lockfile\<close> held \<open>slot\<close>; both are \<open>None\<close> when
  \<^verbatim>\<open>kvm_read\<close> returns a negative value.
\<close>

definition head_at :: "kvm_env \<Rightarrow> byte list \<Rightarrow> c_ulong \<Rightarrow> c_int \<Rightarrow> byte list option" where
  "head_at env slot lockfilehashtable bucket =
     (case kvm_read env (bucket_addr lockfilehashtable bucket) slot sizeof_ulong of
        (rc, buf) \<Rightarrow> if rc < 0 then None else Some buf)"

definition lockfile_at :: "kvm_env \<Rightarrow> byte list \<Rightarrow> c_ulong \<Rightarrow> byte list option" where
  "lockfile_at env slot cur =
     (case kvm_read env cur slot sizeof_nfslockfile of
        (rc, buf) \<Rightarrow> if rc < 0 then None else Some buf)"

text \<open>
  The state after the read of a bucket head, and after one iteration of the inner
  loop, given the bytes that the read left in the variable.
\<close>

definition enter_bucket :: "c_ulong \<Rightarrow> byte list \<Rightarrow> scan_state \<Rightarrow> scan_state" where
  "enter_bucket kva buf s = log_call (KvmRead kva sizeof_ulong) (s\<lparr>cur_bytes := buf\<rparr>)"

definition visit :: "c_ulong \<Rightarrow> byte list \<Rightarrow> scan_state \<Rightarrow> scan_state" where
  "visit cur buf s =
     count_lockfile (decode_nfslockfile buf)
       (log_call (KvmRead cur sizeof_nfslockfile)
          (s\<lparr>lockfile_bytes := buf, cur_bytes := field 40 8 buf\<rparr>))"

text \<open>
  A read is complete when it transfers all the bytes requested; what the variable held
  is then of no influence. \<open>struct_at\<close> is the struct that a complete read finds at
  an address and \<open>head_of\<close> the head of a bucket that a complete read finds.
\<close>

definition full_read :: "kvm_env \<Rightarrow> c_ulong \<Rightarrow> nat \<Rightarrow> byte list option" where
  "full_read env kva nbytes =
     (case mem_read env kva nbytes of
        None \<Rightarrow> None
      | Some bs \<Rightarrow> if nbytes \<le> length bs then Some (take nbytes bs) else None)"

definition struct_at :: "kvm_env \<Rightarrow> c_ulong \<Rightarrow> nfslockfile option" where
  "struct_at env cur = map_option decode_nfslockfile (full_read env cur sizeof_nfslockfile)"

definition head_of :: "kvm_env \<Rightarrow> c_ulong \<Rightarrow> c_int \<Rightarrow> c_ulong option" where
  "head_of env lockfilehashtable bucket =
     map_option le_word (full_read env (bucket_addr lockfilehashtable bucket) sizeof_ulong)"

text \<open>
  A chain of structs that starts at an address and ends with a null \<^verbatim>\<open>le_next\<close>;
  the chains of the buckets from a bucket index on; an image that holds a table with
  these chains, one for each of its buckets. The heads and the structs of a table are
  read completely.
\<close>

fun chain :: "kvm_env \<Rightarrow> c_ulong \<Rightarrow> nfslockfile list \<Rightarrow> bool" where
  "chain env cur [] \<longleftrightarrow> cur = 0"
| "chain env cur (lf # lfs) \<longleftrightarrow>
     cur \<noteq> 0 \<and> struct_at env cur = Some lf \<and> chain env (lf_hash_le_next lf) lfs"

fun buckets :: "kvm_env \<Rightarrow> c_ulong \<Rightarrow> c_int \<Rightarrow> nfslockfile list list \<Rightarrow> bool" where
  "buckets env lockfilehashtable bucket [] \<longleftrightarrow> True"
| "buckets env lockfilehashtable bucket (c # cs) \<longleftrightarrow>
     (case head_of env lockfilehashtable bucket of
        None \<Rightarrow> False
      | Some cur \<Rightarrow> chain env cur c)
     \<and> buckets env lockfilehashtable (bucket + 1) cs"

definition table_image :: "kvm_env \<Rightarrow> nfslockfile list list \<Rightarrow> bool" where
  "table_image env cs \<longleftrightarrow>
     openfiles_ok env \<and> nlist_readable env
     \<and> (case hashsize_at env of None \<Rightarrow> False | Some n \<Rightarrow> sint n = int (length cs))
     \<and> (case hashtable_at env of None \<Rightarrow> False | Some t \<Rightarrow> buckets env t 0 cs)"

text \<open>
  The walk of a chain as the inner loop makes it, from an address and a content of
  \<^verbatim>\<open>lockfile\<close>. It ends within \<open>n\<close> structs when at most \<open>n\<close> structs are read
  before a null pointer or a failing read is met.
\<close>

fun ends_within :: "nat \<Rightarrow> kvm_env \<Rightarrow> byte list \<Rightarrow> c_ulong \<Rightarrow> bool" where
  "ends_within 0 env slot cur \<longleftrightarrow> cur = 0 \<or> lockfile_at env slot cur = None"
| "ends_within (Suc n) env slot cur \<longleftrightarrow>
     cur = 0 \<or> (case lockfile_at env slot cur of
                  None \<Rightarrow> True
                | Some buf \<Rightarrow> ends_within n env buf (lf_hash_le_next (decode_nfslockfile buf)))"

text \<open>
  The content of \<^verbatim>\<open>lockfile\<close> and the address reached after \<open>n\<close> structs, when all
  of them can be read. A walk has a cycle when, after one struct or more, it comes back
  to an address with the same content of \<^verbatim>\<open>lockfile\<close>.
\<close>

fun follow :: "nat \<Rightarrow> kvm_env \<Rightarrow> byte list \<Rightarrow> c_ulong \<Rightarrow> (byte list \<times> c_ulong) option" where
  "follow 0 env slot cur = Some (slot, cur)"
| "follow (Suc n) env slot cur =
     (if cur = 0 then None
      else case lockfile_at env slot cur of
             None \<Rightarrow> None
           | Some buf \<Rightarrow> follow n env buf (lf_hash_le_next (decode_nfslockfile buf)))"

text \<open>The state in which the outer loop starts.\<close>

definition init_state :: "kvm_env \<Rightarrow> scan_state" where
  "init_state env =
     \<lparr> total_lockfiles = 0, leaked_lockfiles = 0,
       cur_bytes = uninit env V_cur,
       lockfile_bytes = uninit env V_lockfile,
       calls = [KvmOpenfiles, KvmNlist, KvmRead (lockhashsize_addr env) sizeof_int,
                KvmRead (lockhash_addr env) sizeof_ulong] \<rparr>"

definition finish :: "scan_result \<Rightarrow> outcome" where
  "finish r = (case r of Failed msg s \<Rightarrow> failure msg (calls s) | Finished s \<Rightarrow> report s)"

text \<open>
  A libkvm call fails when it returns what the program tests for: \<^verbatim>\<open>NULL\<close> from
  \<^verbatim>\<open>kvm_openfiles\<close>, a negative value from \<^verbatim>\<open>kvm_nlist\<close> or \<^verbatim>\<open>kvm_read\<close>. The reads
  of the two loops are those of a bucket head and of a struct. A run of a loop from a
  state extends the trace by reads of the loop; all of them succeed when the loop ends
  normally, and all but the last when it ends with a message, which is then the
  message of that read.
\<close>

fun call_fails :: "kvm_env \<Rightarrow> kvm_call \<Rightarrow> bool" where
  "call_fails env KvmOpenfiles \<longleftrightarrow> \<not> openfiles_ok env"
| "call_fails env KvmNlist \<longleftrightarrow> \<not> nlist_readable env"
| "call_fails env (KvmRead kva nbytes) \<longleftrightarrow> mem_read env kva nbytes = None"
| "call_fails env KvmClose \<longleftrightarrow> False"

fun loop_read :: "kvm_call \<Rightarrow> bool" where
  "loop_read (KvmRead kva nbytes) \<longleftrightarrow> nbytes = sizeof_ulong \<or> nbytes = sizeof_nfslockfile"
| "loop_read _ \<longleftrightarrow> False"

definition state_of :: "scan_result \<Rightarrow> scan_state" where
  "state_of r = (case r of Failed msg s \<Rightarrow> s | Finished s \<Rightarrow> s)"

definition loop_message :: "kvm_env \<Rightarrow> kvm_call \<Rightarrow> string \<Rightarrow> bool" where
  "loop_message env c msg \<longleftrightarrow>
     msg = ''Failed to read bucket pointer: '' @ kvm_geterr env c
     \<or> msg = ''Failed to read lockfile: '' @ kvm_geterr env c"

definition run_of :: "kvm_env \<Rightarrow> scan_state \<Rightarrow> scan_result \<Rightarrow> bool" where
  "run_of env s r \<longleftrightarrow>
     (\<exists>tr. calls (state_of r) = calls s @ tr \<and> list_all loop_read tr
        \<and> (case r of
              Finished s' \<Rightarrow> list_all (\<lambda>c. \<not> call_fails env c) tr
            | Failed msg s' \<Rightarrow>
                tr \<noteq> [] \<and> list_all (\<lambda>c. \<not> call_fails env c) (butlast tr)
                \<and> call_fails env (last tr) \<and> loop_message env (last tr) msg))"

text \<open>
  The prefixes of the six messages that the program can write to stderr; a diagnostic
  is one of them followed by the error text of libkvm for the call that failed. The
  read of the bucket count is the only read of four bytes, and the reads of structs
  are the only reads of 96 bytes.
\<close>

definition stage_messages :: "string list" where
  "stage_messages =
     [''Failed to open files for KVM: '', ''Failed to read symbols: '',
      ''Failed to read lockfilehash size: '', ''Failed to read lockfilehash pointer: '',
      ''Failed to read bucket pointer: '', ''Failed to read lockfile: '']"

fun is_size_read :: "kvm_call \<Rightarrow> bool" where
  "is_size_read (KvmRead kva nbytes) \<longleftrightarrow> nbytes = sizeof_int"
| "is_size_read _ \<longleftrightarrow> False"

fun is_struct_read :: "kvm_call \<Rightarrow> bool" where
  "is_struct_read (KvmRead kva nbytes) \<longleftrightarrow> nbytes = sizeof_nfslockfile"
| "is_struct_read _ \<longleftrightarrow> False"

definition diagnostic :: "kvm_env \<Rightarrow> kvm_call \<Rightarrow> string \<Rightarrow> bool" where
  "diagnostic env c msg \<longleftrightarrow> (\<exists>st\<in>set stage_messages. msg = st @ kvm_geterr env c)"

text \<open>
  What a part of a run does to the counters: the total goes up by the number of reads
  of structs that succeeded, and the lost count by a number that is not larger.
\<close>

definition counted :: "kvm_env \<Rightarrow> scan_state \<Rightarrow> scan_state \<Rightarrow> bool" where
  "counted env s s' \<longleftrightarrow>
     (\<exists>tr l. calls s' = calls s @ tr
        \<and> l \<le> length (filter (\<lambda>c. is_struct_read c \<and> \<not> call_fails env c) tr)
        \<and> total_lockfiles s' = total_lockfiles s
              + of_nat (length (filter (\<lambda>c. is_struct_read c \<and> \<not> call_fails env c) tr))
        \<and> leaked_lockfiles s' = leaked_lockfiles s + of_nat l)"

text \<open>The order between the two counters, read as signed integers.\<close>

definition counters_ok :: "scan_state \<Rightarrow> bool" where
  "counters_ok s \<longleftrightarrow>
     0 \<le> sint (leaked_lockfiles s) \<and> sint (leaked_lockfiles s) \<le> sint (total_lockfiles s)"

section \<open>Images for the scenarios\<close>

text \<open>
  Concrete kernel images. An image lists the regions of kernel memory that can be read,
  each with its address and the bytes that a read at that address transfers; a read
  anywhere else fails. The symbol \<^verbatim>\<open>_nfslockhash\<close> is at \<open>0x1000\<close>,
  \<^verbatim>\<open>_nfsrv_lockhashsize\<close> at \<open>0x2000\<close>, the bucket array at \<open>0x3000\<close> and the first
  struct at \<open>0x4000\<close>. The last parameter is the byte that fills the program's
  variables before their first use; each variable has the size of its type.
\<close>

fun sizeof_var :: "local_var \<Rightarrow> nat" where
  "sizeof_var V_lockfilehashsize = 4"
| "sizeof_var V_lockfilehashtable = 8"
| "sizeof_var V_cur = 8"
| "sizeof_var V_lockfile = 96"

definition both_symbols :: "string \<Rightarrow> c_ulong option" where
  "both_symbols = [SYMBOL_LOCKHASH \<mapsto> 0x1000, SYMBOL_LOCKHASH_SIZE \<mapsto> 0x2000]"

definition image ::
    "(string \<Rightarrow> c_ulong option) \<Rightarrow> (c_ulong \<times> byte list) list \<Rightarrow> byte \<Rightarrow> kvm_env" where
  "image syms regions stale =
     \<lparr> openfiles_ok = True, nlist_readable = True, symtab = syms,
       mem_read = (\<lambda>kva nbytes. map_of regions kva),
       uninit = (\<lambda>v. replicate (sizeof_var v) stale),
       kvm_geterr = (\<lambda>c. ''Bad address'') \<rparr>"

definition one_bucket :: "byte list \<Rightarrow> (c_ulong \<times> byte list) list" where
  "one_bucket lockfile =
     [(0x2000, [1, 0, 0, 0]),
      (0x1000, [0, 0x30, 0, 0, 0, 0, 0, 0]),
      (0x3000, [0, 0x40, 0, 0, 0, 0, 0, 0]),
      (0x4000, lockfile)]"

definition orphan_image :: kvm_env where
  "orphan_image = image both_symbols (one_bucket (replicate 96 0)) 0xAA"

definition deleg_record :: "byte list" where
  "deleg_record = replicate 8 0 @ [7, 0, 0, 0, 0, 0, 0, 0] @ replicate 80 0"

definition deleg_image :: kvm_env where
  "deleg_image = image both_symbols (one_bucket deleg_record) 0xAA"

definition empty_image :: kvm_env where
  "empty_image =
     image both_symbols [(0x2000, [0, 0, 0, 0]), (0x1000, [0, 0x30, 0, 0, 0, 0, 0, 0])] 0xAA"

definition no_table_image :: kvm_env where
  "no_table_image = image both_symbols [(0x2000, [0, 0, 0, 0])] 0xAA"

definition unreadable_symbols_image :: kvm_env where
  "unreadable_symbols_image = orphan_image\<lparr>nlist_readable := False\<rparr>"

definition missing_size_image :: kvm_env where
  "missing_size_image =
     image [SYMBOL_LOCKHASH \<mapsto> 0x1000]
       [(0, [0, 0, 0, 0]), (0x1000, [0, 0x30, 0, 0, 0, 0, 0, 0])] 0xAA"

definition missing_size_unmapped_image :: kvm_env where
  "missing_size_unmapped_image =
     image [SYMBOL_LOCKHASH \<mapsto> 0x1000] [(0x1000, [0, 0x30, 0, 0, 0, 0, 0, 0])] 0xAA"

definition broken_chain_image :: kvm_env where
  "broken_chain_image =
     image both_symbols
       (one_bucket (replicate 40 0 @ [0, 0x50, 0, 0, 0, 0, 0, 0] @ replicate 48 0)) 0xAA"

definition short_count_image :: kvm_env where
  "short_count_image =
     image both_symbols [(0x2000, []), (0x1000, [0, 0x30, 0, 0, 0, 0, 0, 0])] 0xAA"

definition negative_count_image :: kvm_env where
  "negative_count_image =
     image both_symbols
       [(0x2000, [0xFF, 0xFF, 0xFF, 0xFF]), (0x1000, [0, 0x30, 0, 0, 0, 0, 0, 0])] 0xAA"

definition int_min_count_image :: kvm_env where
  "int_min_count_image =
     image both_symbols
       [(0x2000, [0, 0, 0, 0x80]), (0x1000, [0, 0x30, 0, 0, 0, 0, 0, 0])] 0xAA"

definition no_bucket_array_image :: kvm_env where
  "no_bucket_array_image =
     image both_symbols [(0x2000, [1, 0, 0, 0]), (0x1000, [0, 0x30, 0, 0, 0, 0, 0, 0])] 0xAA"

text \<open>
  Three images with short reads. In the first the table has two buckets with one struct
  each: the struct of the first bucket, at \<open>0x4000\<close>, has a non-null \<^verbatim>\<open>lf_open\<close>
  and is read completely; the read of the struct of the second bucket, at \<open>0x5000\<close>,
  transfers eight bytes only, a null \<^verbatim>\<open>lf_open\<close>. The second image has a third
  bucket, whose head cannot be read. In the third image the two structs are in one
  chain, and the read of the second one transfers its first 40 bytes.
\<close>

definition open_record :: "byte list" where
  "open_record = [1, 0, 0, 0, 0, 0, 0, 0] @ replicate 88 0"

definition short_second_regions :: "(c_ulong \<times> byte list) list" where
  "short_second_regions =
     [(0x1000, [0, 0x30, 0, 0, 0, 0, 0, 0]),
      (0x3000, [0, 0x40, 0, 0, 0, 0, 0, 0]),
      (0x3008, [0, 0x50, 0, 0, 0, 0, 0, 0]),
      (0x4000, open_record),
      (0x5000, [0, 0, 0, 0, 0, 0, 0, 0])]"

definition short_second_image :: kvm_env where
  "short_second_image = image both_symbols ((0x2000, [2, 0, 0, 0]) # short_second_regions) 0xAA"

definition short_then_fault_image :: kvm_env where
  "short_then_fault_image =
     image both_symbols ((0x2000, [3, 0, 0, 0]) # short_second_regions) 0xAA"

definition linked_record :: "byte list" where
  "linked_record = replicate 40 0 @ [0, 0x50, 0, 0, 0, 0, 0, 0] @ replicate 48 0"

definition short_in_chain_image :: kvm_env where
  "short_in_chain_image =
     image both_symbols
       [(0x2000, [1, 0, 0, 0]),
        (0x1000, [0, 0x30, 0, 0, 0, 0, 0, 0]),
        (0x3000, [0, 0x40, 0, 0, 0, 0, 0, 0]),
        (0x4000, linked_record),
        (0x5000, replicate 40 0)] 0xAA"

text \<open>
  A table with two buckets, the first with a struct in use followed by a lost one, the
  second empty; and a table whose only struct points to itself.
\<close>

definition live_record :: "byte list" where
  "live_record =
     [1, 0, 0, 0, 0, 0, 0, 0] @ replicate 32 0 @ [0, 0x50, 0, 0, 0, 0, 0, 0] @ replicate 48 0"

definition two_bucket_image :: kvm_env where
  "two_bucket_image =
     image both_symbols
       [(0x2000, [2, 0, 0, 0]),
        (0x1000, [0, 0x30, 0, 0, 0, 0, 0, 0]),
        (0x3000, [0, 0x40, 0, 0, 0, 0, 0, 0]),
        (0x3008, [0, 0, 0, 0, 0, 0, 0, 0]),
        (0x4000, live_record),
        (0x5000, replicate 96 0)] 0xAA"

definition cycle_record :: "byte list" where
  "cycle_record = replicate 40 0 @ [0, 0x40, 0, 0, 0, 0, 0, 0] @ replicate 48 0"

definition cycle_image :: kvm_env where
  "cycle_image = image both_symbols (one_bucket cycle_record) 0xAA"

text \<open>
  An image with one bucket whose chain has \<open>2 ^ 31\<close> structs, one more than an
  \<^verbatim>\<open>int\<close> can count. The structs are at the addresses \<open>0x80 * k\<close> for
  \<open>k = 1, \<dots>, 2 ^ 31\<close>; each points to the next one and the last to null; the first
  has a non-null \<^verbatim>\<open>lf_open\<close>, all others are lost. The symbols and the bucket array are
  above the structs, from \<open>2 ^ 40\<close> on. The bytes of a struct are built with the
  little-endian encoding of its fields.
\<close>

fun le_bytes :: "nat \<Rightarrow> nat \<Rightarrow> byte list" where
  "le_bytes 0 v = []"
| "le_bytes (Suc k) v = of_nat (v mod 256) # le_bytes k (v div 256)"

definition big_lockfile :: "nat \<Rightarrow> byte list" where
  "big_lockfile a =
     le_bytes 8 (if a = 0x80 then 1 else 0) @ replicate 32 0
     @ le_bytes 8 (if a = 0x4000000000 then 0 else a + 0x80) @ replicate 48 0"

definition big_image :: kvm_env where
  "big_image =
     \<lparr> openfiles_ok = True, nlist_readable = True,
       symtab = [SYMBOL_LOCKHASH \<mapsto> 0x10000000000, SYMBOL_LOCKHASH_SIZE \<mapsto> 0x10000000008],
       mem_read = (\<lambda>kva nbytes.
          if unat kva = 0x10000000008 then Some [1, 0, 0, 0]
          else if unat kva = 0x10000000000 then Some [0x10, 0, 0, 0, 0, 1, 0, 0]
          else if unat kva = 0x10000000010 then Some [0x80, 0, 0, 0, 0, 0, 0, 0]
          else if 0 < unat kva \<and> unat kva \<le> 0x4000000000 \<and> unat kva mod 0x80 = 0
            then Some (big_lockfile (unat kva))
          else None),
       uninit = (\<lambda>v. replicate (sizeof_var v) 0xAA),
       kvm_geterr = (\<lambda>c. ''Bad address'') \<rparr>"

definition big_addr :: "nat \<Rightarrow> c_ulong" where
  "big_addr k = of_nat (0x80 * k)"

definition big_struct :: "nat \<Rightarrow> nfslockfile" where
  "big_struct k = decode_nfslockfile (big_lockfile (0x80 * k))"

fun big_records :: "nat \<Rightarrow> nat \<Rightarrow> nfslockfile list" where
  "big_records k 0 = []"
| "big_records k (Suc n) = big_struct k # big_records (Suc k) n"

definition big_chain :: "nfslockfile list" where
  "big_chain = big_records 1 2147483648"

section \<open>Properties\<close>

subsection \<open>Reads\<close>

lemma kvm_read_negative: "fst (kvm_read env kva buf nbytes) < 0 \<longleftrightarrow> mem_read env kva nbytes = None"
  by (simp add: kvm_read_def Let_def split: option.splits)

lemma kvm_read_Some:
  "mem_read env kva nbytes = Some bs \<Longrightarrow>
   kvm_read env kva buf nbytes
     = (int (length (take nbytes bs)), take nbytes bs @ drop (length (take nbytes bs)) buf)"
  by (simp add: kvm_read_def Let_def)

lemma lockfile_at_None:
  "lockfile_at env slot cur = None \<longleftrightarrow> mem_read env cur sizeof_nfslockfile = None"
  using kvm_read_negative [of env cur slot sizeof_nfslockfile]
  by (auto simp: lockfile_at_def split: prod.splits if_splits)

lemma lockfile_at_Some:
  "mem_read env cur sizeof_nfslockfile = Some bs \<Longrightarrow>
   lockfile_at env slot cur
     = Some (take sizeof_nfslockfile bs @ drop (length (take sizeof_nfslockfile bs)) slot)"
  by (simp add: lockfile_at_def kvm_read_Some)

lemma head_at_None:
  "head_at env slot t b = None \<longleftrightarrow> mem_read env (bucket_addr t b) sizeof_ulong = None"
  using kvm_read_negative [of env "bucket_addr t b" slot sizeof_ulong]
  by (auto simp: head_at_def split: prod.splits if_splits)

lemma head_at_Some:
  "mem_read env (bucket_addr t b) sizeof_ulong = Some bs \<Longrightarrow>
   head_at env slot t b
     = Some (take sizeof_ulong bs @ drop (length (take sizeof_ulong bs)) slot)"
  by (simp add: head_at_def kvm_read_Some)

lemma hashsize_at_None:
  "hashsize_at env = None \<longleftrightarrow> mem_read env (lockhashsize_addr env) sizeof_int = None"
  using kvm_read_negative [of env "lockhashsize_addr env" "uninit env V_lockfilehashsize" sizeof_int]
  by (auto simp: hashsize_at_def split: prod.splits if_splits)

lemma hashtable_at_None:
  "hashtable_at env = None \<longleftrightarrow> mem_read env (lockhash_addr env) sizeof_ulong = None"
  using kvm_read_negative [of env "lockhash_addr env" "uninit env V_lockfilehashtable" sizeof_ulong]
  by (auto simp: hashtable_at_def split: prod.splits if_splits)

lemma field_append:
  "off + len \<le> length b \<Longrightarrow> field off len (b @ rest) = field off len b"
  by (simp add: field_def)

lemma decode_nfslockfile_append:
  assumes "length b = sizeof_nfslockfile"
  shows "decode_nfslockfile (b @ rest) = decode_nfslockfile b"
  using assms by (simp add: decode_nfslockfile_def field_append sizeof_nfslockfile_def)

lemma struct_at_lockfile_at:
  assumes "struct_at env cur = Some lf"
  shows "\<exists>buf. lockfile_at env slot cur = Some buf \<and> decode_nfslockfile buf = lf"
proof -
  from assms obtain bs where
    bs: "mem_read env cur sizeof_nfslockfile = Some bs" "sizeof_nfslockfile \<le> length bs"
      "lf = decode_nfslockfile (take sizeof_nfslockfile bs)"
    by (auto simp: struct_at_def full_read_def split: option.splits if_splits)
  have "length (take sizeof_nfslockfile bs) = sizeof_nfslockfile"
    using bs(2) by simp
  then have "decode_nfslockfile
      (take sizeof_nfslockfile bs @ drop (length (take sizeof_nfslockfile bs)) slot) = lf"
    using bs(3) by (simp only: decode_nfslockfile_append)
  then show ?thesis
    using lockfile_at_Some [OF bs(1), of slot] by simp
qed

lemma head_of_head_at:
  assumes "head_of env t b = Some cur"
  shows "\<exists>buf. head_at env slot t b = Some buf \<and> le_word (take sizeof_ulong buf) = cur"
proof -
  from assms obtain bs where
    bs: "mem_read env (bucket_addr t b) sizeof_ulong = Some bs" "sizeof_ulong \<le> length bs"
      "cur = le_word (take sizeof_ulong bs)"
    by (auto simp: head_of_def full_read_def split: option.splits if_splits)
  let ?buf = "take sizeof_ulong bs @ drop (length (take sizeof_ulong bs)) slot"
  have "take sizeof_ulong ?buf = take sizeof_ulong bs"
    using bs(2) by simp
  then have "le_word (take sizeof_ulong ?buf) = cur"
    using bs(3) by (simp only:)
  moreover have "head_at env slot t b = Some ?buf"
    using bs(1) by (rule head_at_Some)
  ultimately show ?thesis
    by blast
qed

subsection \<open>The loops, one step at a time\<close>

lemma count_lockfile_total [simp]:
  "total_lockfiles (count_lockfile lf s) = total_lockfiles s + 1"
  by (simp add: count_lockfile_def Let_def)

lemma count_lockfile_leaked [simp]:
  "leaked_lockfiles (count_lockfile lf s) = leaked_lockfiles s + (if is_lost lf then 1 else 0)"
  by (simp add: count_lockfile_def Let_def)

lemma count_lockfile_rest [simp]:
  "calls (count_lockfile lf s) = calls s"
  "cur_bytes (count_lockfile lf s) = cur_bytes s"
  "lockfile_bytes (count_lockfile lf s) = lockfile_bytes s"
  by (simp_all add: count_lockfile_def Let_def)

lemma log_call_simps [simp]:
  "total_lockfiles (log_call c s) = total_lockfiles s"
  "leaked_lockfiles (log_call c s) = leaked_lockfiles s"
  "cur_bytes (log_call c s) = cur_bytes s"
  "lockfile_bytes (log_call c s) = lockfile_bytes s"
  "calls (log_call c s) = calls s @ [c]"
  by (simp_all add: log_call_def)

lemma visit_simps [simp]:
  "total_lockfiles (visit cur buf s) = total_lockfiles s + 1"
  "leaked_lockfiles (visit cur buf s)
     = leaked_lockfiles s + (if is_lost (decode_nfslockfile buf) then 1 else 0)"
  "cur_bytes (visit cur buf s) = field 40 8 buf"
  "lockfile_bytes (visit cur buf s) = buf"
  "calls (visit cur buf s) = calls s @ [KvmRead cur sizeof_nfslockfile]"
  by (simp_all add: visit_def)

lemma enter_bucket_simps [simp]:
  "total_lockfiles (enter_bucket kva buf s) = total_lockfiles s"
  "leaked_lockfiles (enter_bucket kva buf s) = leaked_lockfiles s"
  "cur_bytes (enter_bucket kva buf s) = buf"
  "lockfile_bytes (enter_bucket kva buf s) = lockfile_bytes s"
  "calls (enter_bucket kva buf s) = calls s @ [KvmRead kva sizeof_ulong]"
  by (simp_all add: enter_bucket_def)

lemma while_cur_null: "while_cur env 0 s = Some (Finished s)"
  by (subst while_cur.simps) simp

lemma while_cur_fault:
  "cur \<noteq> 0 \<Longrightarrow> lockfile_at env (lockfile_bytes s) cur = None \<Longrightarrow>
   while_cur env cur s =
     Some (Failed (''Failed to read lockfile: '' @ kvm_geterr env (KvmRead cur sizeof_nfslockfile))
             (log_call (KvmRead cur sizeof_nfslockfile) s))"
  by (subst while_cur.simps) (auto simp: lockfile_at_def split: prod.splits if_splits)

lemma while_cur_step:
  "cur \<noteq> 0 \<Longrightarrow> lockfile_at env (lockfile_bytes s) cur = Some buf \<Longrightarrow>
   while_cur env cur s = while_cur env (lf_hash_le_next (decode_nfslockfile buf)) (visit cur buf s)"
  by (subst while_cur.simps) (auto simp: lockfile_at_def visit_def split: prod.splits if_splits)

lemma while_cur_chain:
  "chain env cur lfs \<Longrightarrow>
   \<exists>s'. while_cur env cur s = Some (Finished s')
      \<and> total_lockfiles s' = total_lockfiles s + of_nat (length lfs)
      \<and> leaked_lockfiles s' = leaked_lockfiles s + of_nat (length (filter is_lost lfs))"
proof (induction lfs arbitrary: cur s)
  case Nil
  then show ?case by (simp add: while_cur_null)
next
  case (Cons lf lfs)
  from Cons.prems have nz: "cur \<noteq> 0" and at: "struct_at env cur = Some lf"
    and rest: "chain env (lf_hash_le_next lf) lfs"
    by simp_all
  from struct_at_lockfile_at [OF at, of "lockfile_bytes s"] obtain buf where
    buf: "lockfile_at env (lockfile_bytes s) cur = Some buf" "decode_nfslockfile buf = lf"
    by blast
  let ?s1 = "visit cur buf s"
  from Cons.IH [OF rest, of ?s1] obtain s' where
    run: "while_cur env (lf_hash_le_next lf) ?s1 = Some (Finished s')" and
    tot: "total_lockfiles s' = total_lockfiles ?s1 + of_nat (length lfs)" and
    lk: "leaked_lockfiles s' = leaked_lockfiles ?s1 + of_nat (length (filter is_lost lfs))"
    by blast
  have "while_cur env cur s = Some (Finished s')"
    using while_cur_step [OF nz buf(1)] run buf(2) by simp
  moreover have "total_lockfiles s' = total_lockfiles s + of_nat (length (lf # lfs))"
    using tot by simp
  moreover have "leaked_lockfiles s' = leaked_lockfiles s + of_nat (length (filter is_lost (lf # lfs)))"
    using lk buf(2) by simp
  ultimately show ?case by blast
qed

lemma sint_succ:
  fixes b m :: c_int
  assumes "sint b < sint m"
  shows "sint (b + 1) = sint b + 1"
proof -
  have "sint m < 2 ^ 31"
    using sint_lt [of m] by simp
  moreover have "- (2 ^ 31) \<le> sint b"
    using sint_ge [of b] by simp
  ultimately have "signed_take_bit 31 (sint b + 1) = sint b + 1"
    using assms by (intro signed_take_bit_int_eq_self) auto
  then show ?thesis
    by (simp add: sint_word_ariths)
qed

lemma for_bucket_done:
  "\<not> sint bucket < sint lockfilehashsize \<Longrightarrow>
   for_bucket env lockfilehashsize lockfilehashtable bucket s = Some (Finished s)"
  by (subst for_bucket.simps) simp

lemma for_bucket_fault:
  "sint bucket < sint lockfilehashsize \<Longrightarrow>
   head_at env (cur_bytes s) lockfilehashtable bucket = None \<Longrightarrow>
   for_bucket env lockfilehashsize lockfilehashtable bucket s =
     Some (Failed (''Failed to read bucket pointer: ''
                     @ kvm_geterr env (KvmRead (bucket_addr lockfilehashtable bucket) sizeof_ulong))
             (log_call (KvmRead (bucket_addr lockfilehashtable bucket) sizeof_ulong) s))"
  by (subst for_bucket.simps) (auto simp: head_at_def split: prod.splits if_splits)

lemma for_bucket_step:
  "sint bucket < sint lockfilehashsize \<Longrightarrow>
   head_at env (cur_bytes s) lockfilehashtable bucket = Some buf \<Longrightarrow>
   for_bucket env lockfilehashsize lockfilehashtable bucket s =
     Option.bind
       (while_cur env (le_word (take sizeof_ulong buf))
          (enter_bucket (bucket_addr lockfilehashtable bucket) buf s))
       (\<lambda>r. case r of
              Failed msg s' \<Rightarrow> Some (Failed msg s')
            | Finished s' \<Rightarrow> for_bucket env lockfilehashsize lockfilehashtable (bucket + 1) s')"
  by (subst for_bucket.simps) (auto simp: head_at_def enter_bucket_def split: prod.splits if_splits)

lemma for_bucket_buckets:
  "buckets env lockfilehashtable bucket cs \<Longrightarrow>
   sint bucket + int (length cs) = sint lockfilehashsize \<Longrightarrow>
   \<exists>s'. for_bucket env lockfilehashsize lockfilehashtable bucket s = Some (Finished s')
      \<and> total_lockfiles s' = total_lockfiles s + of_nat (length (concat cs))
      \<and> leaked_lockfiles s' = leaked_lockfiles s + of_nat (length (filter is_lost (concat cs)))"
proof (induction cs arbitrary: bucket s)
  case Nil
  then show ?case by (simp add: for_bucket_done)
next
  case (Cons c cs)
  from Cons.prems(2) have lt: "sint bucket < sint lockfilehashsize"
    by simp
  from Cons.prems(1) obtain cur where
    hd: "head_of env lockfilehashtable bucket = Some cur" and
    ch: "chain env cur c" and
    rest: "buckets env lockfilehashtable (bucket + 1) cs"
    by (auto split: option.splits)
  from head_of_head_at [OF hd, of "cur_bytes s"] obtain buf where
    buf: "head_at env (cur_bytes s) lockfilehashtable bucket = Some buf"
      "le_word (take sizeof_ulong buf) = cur"
    by blast
  let ?s0 = "enter_bucket (bucket_addr lockfilehashtable bucket) buf s"
  from while_cur_chain [OF ch, of ?s0] obtain s1 where
    w: "while_cur env cur ?s0 = Some (Finished s1)" and
    t1: "total_lockfiles s1 = total_lockfiles s + of_nat (length c)" and
    l1: "leaked_lockfiles s1 = leaked_lockfiles s + of_nat (length (filter is_lost c))"
    by auto
  have "sint (bucket + 1) + int (length cs) = sint lockfilehashsize"
    using Cons.prems(2) sint_succ [OF lt] by simp
  from Cons.IH [OF rest this, of s1] obtain s' where
    f: "for_bucket env lockfilehashsize lockfilehashtable (bucket + 1) s1 = Some (Finished s')" and
    t2: "total_lockfiles s' = total_lockfiles s1 + of_nat (length (concat cs))" and
    l2: "leaked_lockfiles s' = leaked_lockfiles s1 + of_nat (length (filter is_lost (concat cs)))"
    by blast
  have "for_bucket env lockfilehashsize lockfilehashtable bucket s = Some (Finished s')"
    using for_bucket_step [OF lt buf(1)] buf(2) w f by simp
  moreover have "total_lockfiles s' = total_lockfiles s + of_nat (length (concat (c # cs)))"
    using t1 t2 by simp
  moreover have "leaked_lockfiles s' =
      leaked_lockfiles s + of_nat (length (filter is_lost (concat (c # cs))))"
    using l1 l2 by simp
  ultimately show ?case by blast
qed

subsection \<open>What a run of a loop does to the trace\<close>

lemma run_of_refl: "run_of env s (Finished s)"
  by (simp add: run_of_def state_of_def)

lemma run_of_trans:
  assumes "run_of env s (Finished s1)" and "run_of env s1 r"
  shows "run_of env s r"
proof -
  from assms(1) obtain tr1 where
    A: "calls s1 = calls s @ tr1" "list_all loop_read tr1" "list_all (\<lambda>c. \<not> call_fails env c) tr1"
    by (auto simp: run_of_def state_of_def)
  from assms(2) obtain tr2 where
    B: "calls (state_of r) = calls s1 @ tr2" "list_all loop_read tr2"
       "case r of Finished s' \<Rightarrow> list_all (\<lambda>c. \<not> call_fails env c) tr2
          | Failed msg s' \<Rightarrow> tr2 \<noteq> [] \<and> list_all (\<lambda>c. \<not> call_fails env c) (butlast tr2)
              \<and> call_fails env (last tr2) \<and> loop_message env (last tr2) msg"
    by (auto simp: run_of_def)
  show ?thesis
    unfolding run_of_def
  proof (intro exI [of _ "tr1 @ tr2"] conjI)
    show "calls (state_of r) = calls s @ tr1 @ tr2"
      using A(1) B(1) by simp
    show "list_all loop_read (tr1 @ tr2)"
      using A(2) B(2) by simp
    show "case r of Finished s' \<Rightarrow> list_all (\<lambda>c. \<not> call_fails env c) (tr1 @ tr2)
          | Failed msg s' \<Rightarrow> tr1 @ tr2 \<noteq> [] \<and> list_all (\<lambda>c. \<not> call_fails env c) (butlast (tr1 @ tr2))
              \<and> call_fails env (last (tr1 @ tr2)) \<and> loop_message env (last (tr1 @ tr2)) msg"
      using A(3) B(3) by (cases r) (auto simp: butlast_append)
  qed
qed

lemma run_of_read:
  assumes "loop_read c" and "\<not> call_fails env c" and "calls s' = calls s @ [c]"
  shows "run_of env s (Finished s')"
  using assms by (auto simp: run_of_def state_of_def intro!: exI [of _ "[c]"])

lemma run_of_fault:
  assumes "loop_read c" and "call_fails env c" and "loop_message env c msg"
    and "calls s' = calls s @ [c]"
  shows "run_of env s (Failed msg s')"
  using assms by (auto simp: run_of_def state_of_def intro!: exI [of _ "[c]"])

lemmas while_cur_induct = while_cur.raw_induct [rotated 1, consumes 1, case_names step]

lemmas for_bucket_induct = for_bucket.raw_induct [rotated 1, consumes 1, case_names step]

lemma while_cur_run_of:
  assumes "while_cur env cur s = Some r"
  shows "run_of env s r"
  using assms
proof (induction env cur s r rule: while_cur_induct)
  case (step f env cur s r)
  show ?case
  proof (cases "cur = 0")
    case True
    with step(2) show ?thesis by (auto simp: run_of_refl)
  next
    case nz: False
    let ?c = "KvmRead cur sizeof_nfslockfile"
    show ?thesis
    proof (cases "lockfile_at env (lockfile_bytes s) cur")
      case None
      then have "r = Failed (''Failed to read lockfile: '' @ kvm_geterr env ?c) (log_call ?c s)"
        using step(2) nz by (auto simp: lockfile_at_def split: prod.splits if_splits)
      moreover have "call_fails env ?c"
        using None by (simp add: lockfile_at_None)
      ultimately show ?thesis
        by (auto intro!: run_of_fault [where c = ?c] simp: loop_message_def)
    next
      case (Some buf)
      then have "f env (lf_hash_le_next (decode_nfslockfile buf)) (visit cur buf s) = Some r"
        using step(2) nz by (auto simp: lockfile_at_def visit_def split: prod.splits if_splits)
      then have "run_of env (visit cur buf s) r"
        by (rule step(1))
      moreover have "\<not> call_fails env ?c"
        using Some lockfile_at_None [of env "lockfile_bytes s" cur] by simp
      then have "run_of env s (Finished (visit cur buf s))"
        by (auto intro!: run_of_read [where c = ?c])
      ultimately show ?thesis
        by (blast intro: run_of_trans)
    qed
  qed
qed

lemma for_bucket_run_of:
  assumes "for_bucket env n t b s = Some r"
  shows "run_of env s r"
  using assms
proof (induction env n t b s r rule: for_bucket_induct)
  case (step f env n t b s r)
  show ?case
  proof (cases "sint b < sint n")
    case False
    with step(2) show ?thesis by (auto simp: run_of_refl)
  next
    case lt: True
    let ?c = "KvmRead (bucket_addr t b) sizeof_ulong"
    show ?thesis
    proof (cases "head_at env (cur_bytes s) t b")
      case None
      then have "r = Failed (''Failed to read bucket pointer: '' @ kvm_geterr env ?c) (log_call ?c s)"
        using step(2) lt by (auto simp: head_at_def split: prod.splits if_splits)
      moreover have "call_fails env ?c"
        using None by (simp add: head_at_None)
      ultimately show ?thesis
        by (auto intro!: run_of_fault [where c = ?c] simp: loop_message_def)
    next
      case (Some buf)
      let ?s0 = "enter_bucket (bucket_addr t b) buf s"
      let ?cur = "le_word (take sizeof_ulong buf) :: c_ulong"
      from Some have body: "Option.bind (while_cur env ?cur ?s0)
          (\<lambda>r. case r of Failed msg s' \<Rightarrow> Some (Failed msg s')
                | Finished s' \<Rightarrow> f env n t (b + 1) s') = Some r"
        using step(2) lt by (auto simp: head_at_def enter_bucket_def split: prod.splits if_splits)
      then obtain r1 where w: "while_cur env ?cur ?s0 = Some r1"
        by (cases "while_cur env ?cur ?s0") auto
      have "\<not> call_fails env ?c"
        using Some head_at_None [of env "cur_bytes s" t b] by simp
      then have r0: "run_of env s (Finished ?s0)"
        by (auto intro!: run_of_read [where c = ?c])
      have r1: "run_of env ?s0 r1"
        using w by (rule while_cur_run_of)
      show ?thesis
      proof (cases r1)
        case (Failed msg s')
        with body w have "r = r1" by simp
        with r0 r1 show ?thesis by (blast intro: run_of_trans)
      next
        case (Finished s')
        with body w have "f env n t (b + 1) s' = Some r" by simp
        then have "run_of env s' r" by (rule step(1))
        with r0 r1 Finished show ?thesis by (blast intro: run_of_trans)
      qed
    qed
  qed
qed

subsection \<open>Termination of the loops\<close>

lemma while_cur_ends:
  "ends_within n env (lockfile_bytes s) cur \<Longrightarrow> \<exists>r. while_cur env cur s = Some r"
proof (induction n arbitrary: cur s)
  case 0
  then show ?case
    by (cases "cur = 0") (auto simp: while_cur_null while_cur_fault)
next
  case (Suc n)
  show ?case
  proof (cases "cur = 0")
    case True
    then show ?thesis by (simp add: while_cur_null)
  next
    case nz: False
    show ?thesis
    proof (cases "lockfile_at env (lockfile_bytes s) cur")
      case None
      with nz show ?thesis by (simp add: while_cur_fault)
    next
      case (Some buf)
      with Suc.prems nz
      have "ends_within n env (lockfile_bytes (visit cur buf s)) (lf_hash_le_next (decode_nfslockfile buf))"
        by simp
      from Suc.IH [OF this] show ?thesis
        by (simp add: while_cur_step [OF nz Some])
    qed
  qed
qed

lemma while_cur_Some_ends:
  assumes "while_cur env cur s = Some r"
  shows "\<exists>n. ends_within n env (lockfile_bytes s) cur"
  using assms
proof (induction env cur s r rule: while_cur_induct)
  case (step f env cur s r)
  show ?case
  proof (cases "cur = 0 \<or> lockfile_at env (lockfile_bytes s) cur = None")
    case True
    then have "ends_within 0 env (lockfile_bytes s) cur" by simp
    then show ?thesis ..
  next
    case False
    then obtain buf where nz: "cur \<noteq> 0" and at: "lockfile_at env (lockfile_bytes s) cur = Some buf"
      by auto
    then have "f env (lf_hash_le_next (decode_nfslockfile buf)) (visit cur buf s) = Some r"
      using step(2) by (auto simp: lockfile_at_def visit_def split: prod.splits if_splits)
    then obtain n where
      "ends_within n env (lockfile_bytes (visit cur buf s)) (lf_hash_le_next (decode_nfslockfile buf))"
      using step(1) by blast
    with nz at have "ends_within (Suc n) env (lockfile_bytes s) cur" by simp
    then show ?thesis ..
  qed
qed

lemma while_cur_terminates_iff:
  "(\<exists>r. while_cur env cur s = Some r) \<longleftrightarrow> (\<exists>n. ends_within n env (lockfile_bytes s) cur)"
  using while_cur_ends while_cur_Some_ends by blast

lemma ends_within_follow:
  "ends_within k env slot cur \<Longrightarrow> follow j env slot cur = Some (slot', c) \<Longrightarrow>
   ends_within (k - j) env slot' c"
proof (induction j arbitrary: k slot cur)
  case 0
  then show ?case by simp
next
  case (Suc j)
  from Suc.prems(2) obtain buf where
    nz: "cur \<noteq> 0" and at: "lockfile_at env slot cur = Some buf"
    and rest: "follow j env buf (lf_hash_le_next (decode_nfslockfile buf)) = Some (slot', c)"
    by (auto split: if_splits option.splits)
  show ?case
  proof (cases k)
    case 0
    with Suc.prems(1) nz at show ?thesis by simp
  next
    case (Suc k')
    with Suc.prems(1) nz at
    have "ends_within k' env buf (lf_hash_le_next (decode_nfslockfile buf))"
      by simp
    from Suc.IH [OF this rest] Suc show ?thesis
      by simp
  qed
qed

lemma cyclic_chain_never_ends:
  assumes "follow (Suc m) env slot cur = Some (slot, cur)"
  shows "\<not> ends_within k env slot cur"
proof (induction k rule: less_induct)
  case (less k)
  show ?case
  proof
    assume e: "ends_within k env slot cur"
    from assms have nz: "cur \<noteq> 0" "lockfile_at env slot cur \<noteq> None"
      by (auto split: if_splits option.splits)
    with e have "0 < k"
      by (cases k) auto
    moreover from ends_within_follow [OF e assms] have "ends_within (k - Suc m) env slot cur" .
    ultimately show False
      using less.IH [of "k - Suc m"] by simp
  qed
qed

lemma walk_into_cycle:
  assumes "follow j env (lockfile_bytes s) cur = Some (slot, c)"
    and "follow (Suc m) env slot c = Some (slot, c)"
  shows "while_cur env cur s = None"
proof (cases "while_cur env cur s")
  case None
  then show ?thesis .
next
  case (Some r)
  then obtain n where "ends_within n env (lockfile_bytes s) cur"
    using while_cur_Some_ends by blast
  from ends_within_follow [OF this assms(1)] cyclic_chain_never_ends [OF assms(2)]
  show ?thesis
    by simp
qed

lemma for_bucket_terminates:
  assumes "\<And>b' cslot lslot buf. sint b \<le> sint b' \<Longrightarrow> sint b' < sint n \<Longrightarrow>
             head_at env cslot t b' = Some buf \<Longrightarrow>
             \<exists>k. ends_within k env lslot (le_word (take sizeof_ulong buf))"
  shows "\<exists>r. for_bucket env n t b s = Some r"
  using assms
proof (induction "nat (sint n - sint b)" arbitrary: b s)
  case 0
  then have "\<not> sint b < sint n" by simp
  then show ?case by (simp add: for_bucket_done)
next
  case (Suc m)
  then have lt: "sint b < sint n" by linarith
  show ?case
  proof (cases "head_at env (cur_bytes s) t b")
    case None
    with lt show ?thesis by (simp add: for_bucket_fault)
  next
    case (Some buf)
    let ?s0 = "enter_bucket (bucket_addr t b) buf s"
    let ?cur = "le_word (take sizeof_ulong buf) :: c_ulong"
    from Suc.prems [OF _ lt Some, of "lockfile_bytes ?s0"] obtain r1 where
      w: "while_cur env ?cur ?s0 = Some r1"
      using while_cur_ends by blast
    show ?thesis
    proof (cases r1)
      case (Failed msg s')
      with w show ?thesis by (simp add: for_bucket_step [OF lt Some])
    next
      case (Finished s')
      have m: "m = nat (sint n - sint (b + 1))"
        using Suc(2) sint_succ [OF lt] by simp
      have "\<exists>r. for_bucket env n t (b + 1) s' = Some r"
      proof (rule Suc(1) [OF m])
        fix b' cslot lslot buf'
        assume "sint (b + 1) \<le> sint b'" and "sint b' < sint n"
          and "head_at env cslot t b' = Some buf'"
        then show "\<exists>k. ends_within k env lslot (le_word (take sizeof_ulong buf'))"
          using Suc.prems [of b' cslot buf' lslot] sint_succ [OF lt] by simp
      qed
      with Finished w show ?thesis
        by (simp add: for_bucket_step [OF lt Some])
    qed
  qed
qed

subsection \<open>What a run of a loop does to the counters\<close>

lemma counted_refl: "counted env s s"
  by (auto simp: counted_def intro!: exI [of _ "[]"])

lemma counted_trans:
  assumes "counted env s s1" and "counted env s1 s2"
  shows "counted env s s2"
proof -
  let ?k = "\<lambda>tr. length (filter (\<lambda>c. is_struct_read c \<and> \<not> call_fails env c) tr)"
  from assms(1) obtain tr1 l1 where
    A: "calls s1 = calls s @ tr1" "l1 \<le> ?k tr1"
      "total_lockfiles s1 = total_lockfiles s + of_nat (?k tr1)"
      "leaked_lockfiles s1 = leaked_lockfiles s + of_nat l1"
    unfolding counted_def by blast
  from assms(2) obtain tr2 l2 where
    B: "calls s2 = calls s1 @ tr2" "l2 \<le> ?k tr2"
      "total_lockfiles s2 = total_lockfiles s1 + of_nat (?k tr2)"
      "leaked_lockfiles s2 = leaked_lockfiles s1 + of_nat l2"
    unfolding counted_def by blast
  show ?thesis
    unfolding counted_def
  proof (intro exI [of _ "tr1 @ tr2"] exI [of _ "l1 + l2"] conjI)
    show "calls s2 = calls s @ tr1 @ tr2"
      using A(1) B(1) by simp
    show "l1 + l2 \<le> ?k (tr1 @ tr2)"
      using A(2) B(2) by simp
    show "total_lockfiles s2 = total_lockfiles s + of_nat (?k (tr1 @ tr2))"
      using A(3) B(3) by simp
    show "leaked_lockfiles s2 = leaked_lockfiles s + of_nat (l1 + l2)"
      using A(4) B(4) by simp
  qed
qed

lemma counted_visit:
  assumes "\<not> call_fails env (KvmRead cur sizeof_nfslockfile)"
  shows "counted env s (visit cur buf s)"
  unfolding counted_def
proof (intro exI [of _ "[KvmRead cur sizeof_nfslockfile]"]
    exI [of _ "if is_lost (decode_nfslockfile buf) then 1 else 0"] conjI)
  show "leaked_lockfiles (visit cur buf s)
      = leaked_lockfiles s + of_nat (if is_lost (decode_nfslockfile buf) then 1 else 0)"
    by simp
qed (use assms in simp_all)

lemma counted_enter_bucket: "counted env s (enter_bucket kva buf s)"
  unfolding counted_def
  by (intro exI [of _ "[KvmRead kva sizeof_ulong]"] exI [of _ 0])
     (simp add: sizeof_ulong_def sizeof_nfslockfile_def)

lemma counted_failed_call:
  assumes "call_fails env c"
  shows "counted env s (log_call c s)"
  unfolding counted_def
  by (intro exI [of _ "[c]"] exI [of _ 0]) (use assms in simp)

lemma while_cur_counted:
  assumes "while_cur env cur s = Some r"
  shows "counted env s (state_of r)"
  using assms
proof (induction env cur s r rule: while_cur_induct)
  case (step f env cur s r)
  show ?case
  proof (cases "cur = 0")
    case True
    with step(2) show ?thesis by (auto simp: counted_refl state_of_def)
  next
    case nz: False
    let ?c = "KvmRead cur sizeof_nfslockfile"
    show ?thesis
    proof (cases "lockfile_at env (lockfile_bytes s) cur")
      case None
      then have "r = Failed (''Failed to read lockfile: '' @ kvm_geterr env ?c) (log_call ?c s)"
        using step(2) nz by (auto simp: lockfile_at_def split: prod.splits if_splits)
      moreover have "call_fails env ?c"
        using None by (simp add: lockfile_at_None)
      ultimately show ?thesis
        by (simp add: counted_failed_call state_of_def)
    next
      case (Some buf)
      then have "f env (lf_hash_le_next (decode_nfslockfile buf)) (visit cur buf s) = Some r"
        using step(2) nz by (auto simp: lockfile_at_def visit_def split: prod.splits if_splits)
      then have "counted env (visit cur buf s) (state_of r)"
        by (rule step(1))
      moreover have "\<not> call_fails env ?c"
        using Some lockfile_at_None [of env "lockfile_bytes s" cur] by simp
      then have "counted env s (visit cur buf s)"
        by (rule counted_visit)
      ultimately show ?thesis
        by (blast intro: counted_trans)
    qed
  qed
qed

lemma for_bucket_counted:
  assumes "for_bucket env n t b s = Some r"
  shows "counted env s (state_of r)"
  using assms
proof (induction env n t b s r rule: for_bucket_induct)
  case (step f env n t b s r)
  show ?case
  proof (cases "sint b < sint n")
    case False
    with step(2) show ?thesis by (auto simp: counted_refl state_of_def)
  next
    case lt: True
    let ?c = "KvmRead (bucket_addr t b) sizeof_ulong"
    show ?thesis
    proof (cases "head_at env (cur_bytes s) t b")
      case None
      then have "r = Failed (''Failed to read bucket pointer: '' @ kvm_geterr env ?c) (log_call ?c s)"
        using step(2) lt by (auto simp: head_at_def split: prod.splits if_splits)
      moreover have "call_fails env ?c"
        using None by (simp add: head_at_None)
      ultimately show ?thesis
        by (simp add: counted_failed_call state_of_def)
    next
      case (Some buf)
      let ?s0 = "enter_bucket (bucket_addr t b) buf s"
      let ?cur = "le_word (take sizeof_ulong buf) :: c_ulong"
      from Some have body: "Option.bind (while_cur env ?cur ?s0)
          (\<lambda>r. case r of Failed msg s' \<Rightarrow> Some (Failed msg s')
                | Finished s' \<Rightarrow> f env n t (b + 1) s') = Some r"
        using step(2) lt by (auto simp: head_at_def enter_bucket_def split: prod.splits if_splits)
      then obtain r1 where w: "while_cur env ?cur ?s0 = Some r1"
        by (cases "while_cur env ?cur ?s0") auto
      have r0: "counted env s ?s0"
        by (rule counted_enter_bucket)
      have r1: "counted env ?s0 (state_of r1)"
        using w by (rule while_cur_counted)
      show ?thesis
      proof (cases r1)
        case (Failed msg s')
        with body w have "r = r1" by simp
        with r0 r1 show ?thesis by (blast intro: counted_trans)
      next
        case (Finished s')
        with body w have "f env n t (b + 1) s' = Some r" by simp
        then have "counted env s' (state_of r)" by (rule step(1))
        moreover from r1 Finished have "counted env ?s0 s'"
          by (simp add: state_of_def)
        ultimately show ?thesis
          using r0 by (blast intro: counted_trans)
      qed
    qed
  qed
qed

subsection \<open>main, case by case\<close>

lemma main_openfiles_fails:
  "\<not> openfiles_ok env \<Longrightarrow>
   main env = Some (failure (''Failed to open files for KVM: '' @ kvm_geterr env KvmOpenfiles)
                      [KvmOpenfiles])"
  by (simp add: main_def)

lemma main_nlist_fails:
  "openfiles_ok env \<Longrightarrow> \<not> nlist_readable env \<Longrightarrow>
   main env = Some (failure (''Failed to read symbols: '' @ kvm_geterr env KvmNlist)
                      [KvmOpenfiles, KvmNlist])"
  by (simp add: main_def kvm_nlist_def)

lemma main_hashsize_fails:
  "openfiles_ok env \<Longrightarrow> nlist_readable env \<Longrightarrow> hashsize_at env = None \<Longrightarrow>
   main env = Some (failure (''Failed to read lockfilehash size: ''
                               @ kvm_geterr env (KvmRead (lockhashsize_addr env) sizeof_int))
                      [KvmOpenfiles, KvmNlist, KvmRead (lockhashsize_addr env) sizeof_int])"
  by (auto simp: main_def kvm_nlist_def hashsize_at_def lockhash_addr_def lockhashsize_addr_def split: prod.splits if_splits)

lemma main_hashtable_fails:
  "openfiles_ok env \<Longrightarrow> nlist_readable env \<Longrightarrow> hashsize_at env = Some n \<Longrightarrow>
   hashtable_at env = None \<Longrightarrow>
   main env = Some (failure (''Failed to read lockfilehash pointer: ''
                               @ kvm_geterr env (KvmRead (lockhash_addr env) sizeof_ulong))
                      [KvmOpenfiles, KvmNlist, KvmRead (lockhashsize_addr env) sizeof_int,
                       KvmRead (lockhash_addr env) sizeof_ulong])"
  by (auto simp: main_def kvm_nlist_def hashsize_at_def hashtable_at_def lockhash_addr_def lockhashsize_addr_def
      split: prod.splits if_splits)

lemma main_scan:
  "openfiles_ok env \<Longrightarrow> nlist_readable env \<Longrightarrow> hashsize_at env = Some n \<Longrightarrow>
   hashtable_at env = Some t \<Longrightarrow>
   main env = map_option finish (for_bucket env n t 0 (init_state env))"
  by (cases "for_bucket env n t 0 (init_state env)")
     (auto simp: main_def kvm_nlist_def hashsize_at_def hashtable_at_def lockhash_addr_def lockhashsize_addr_def
        init_state_def finish_def
      split: prod.splits if_splits scan_result.splits)

lemma main_table_image:
  assumes "table_image env cs"
  shows "\<exists>s. main env = Some (report s)
           \<and> total_lockfiles s = of_nat (length (concat cs))
           \<and> leaked_lockfiles s = of_nat (length (filter is_lost (concat cs)))"
proof -
  from assms obtain n t where
    ok: "openfiles_ok env" "nlist_readable env" and
    n: "hashsize_at env = Some n" "sint n = int (length cs)" and
    t: "hashtable_at env = Some t" "buckets env t 0 cs"
    by (auto simp: table_image_def split: option.splits)
  have "sint (0 :: c_int) + int (length cs) = sint n"
    using n(2) by simp
  from for_bucket_buckets [OF t(2) this, of "init_state env"] obtain s where
    "for_bucket env n t 0 (init_state env) = Some (Finished s)"
    "total_lockfiles s = of_nat (length (concat cs))"
    "leaked_lockfiles s = of_nat (length (filter is_lost (concat cs)))"
    by (auto simp: init_state_def)
  then show ?thesis
    using main_scan [OF ok n(1) t(1)] by (auto simp: finish_def)
qed

lemma main_cases [consumes 1, case_names openfiles nlist hashsize hashtable loop_failed finished]:
  assumes "main env = Some out"
  obtains
    (openfiles) "\<not> openfiles_ok env"
      "out = failure (''Failed to open files for KVM: '' @ kvm_geterr env KvmOpenfiles) [KvmOpenfiles]"
  | (nlist) "openfiles_ok env" "\<not> nlist_readable env"
      "out = failure (''Failed to read symbols: '' @ kvm_geterr env KvmNlist) [KvmOpenfiles, KvmNlist]"
  | (hashsize) "openfiles_ok env" "nlist_readable env" "hashsize_at env = None"
      "out = failure (''Failed to read lockfilehash size: ''
                        @ kvm_geterr env (KvmRead (lockhashsize_addr env) sizeof_int))
               [KvmOpenfiles, KvmNlist, KvmRead (lockhashsize_addr env) sizeof_int]"
  | (hashtable) n where "openfiles_ok env" "nlist_readable env" "hashsize_at env = Some n"
      "hashtable_at env = None"
      "out = failure (''Failed to read lockfilehash pointer: ''
                        @ kvm_geterr env (KvmRead (lockhash_addr env) sizeof_ulong))
               [KvmOpenfiles, KvmNlist, KvmRead (lockhashsize_addr env) sizeof_int,
                KvmRead (lockhash_addr env) sizeof_ulong]"
  | (loop_failed) n t msg s where "openfiles_ok env" "nlist_readable env"
      "hashsize_at env = Some n" "hashtable_at env = Some t"
      "for_bucket env n t 0 (init_state env) = Some (Failed msg s)"
      "out = failure msg (calls s)"
  | (finished) n t s where "openfiles_ok env" "nlist_readable env"
      "hashsize_at env = Some n" "hashtable_at env = Some t"
      "for_bucket env n t 0 (init_state env) = Some (Finished s)"
      "out = report s"
proof (cases "openfiles_ok env")
  case False
  with assms openfiles show ?thesis by (simp add: main_openfiles_fails)
next
  case op: True
  show ?thesis
  proof (cases "nlist_readable env")
    case False
    with assms op nlist show ?thesis by (simp add: main_nlist_fails)
  next
    case nl: True
    show ?thesis
    proof (cases "hashsize_at env")
      case None
      with assms op nl hashsize show ?thesis by (simp add: main_hashsize_fails)
    next
      case sz: (Some n)
      show ?thesis
      proof (cases "hashtable_at env")
        case None
        with assms op nl sz hashtable show ?thesis by (simp add: main_hashtable_fails)
      next
        case tb: (Some t)
        from assms main_scan [OF op nl sz tb] obtain r where
          r: "for_bucket env n t 0 (init_state env) = Some r" "out = finish r"
          by auto
        show ?thesis
        proof (cases r)
          case (Failed msg s)
          with r op nl sz tb loop_failed show ?thesis by (simp add: finish_def)
        next
          case (Finished s)
          with r op nl sz tb finished show ?thesis by (simp add: finish_def)
        qed
      qed
    qed
  qed
qed

lemma stdout_report:
  "out_stdout (report s) =
     ''Total file handles: '' @ show_int (sint (total_lockfiles s)) @ newline
     @ ''Lost file handles: '' @ show_int (sint (leaked_lockfiles s)) @ newline"
  by (simp add: report_def)

lemma show_int_0: "show_int 0 = ''0''"
  by (simp add: show_int_def show_nat.simps)

lemma show_int_1: "show_int 1 = ''1''"
  by (simp add: show_int_def show_nat.simps)

lemma show_int_2: "show_int 2 = ''2''"
  by (simp add: show_int_def show_nat.simps)

lemma main_no_bucket:
  assumes "openfiles_ok env" and "nlist_readable env"
    and "hashsize_at env = Some n" and "hashtable_at env = Some t" and "sint n \<le> 0"
  shows "main env =
     Some \<lparr> out_stdout = ''Total file handles: 0'' @ newline @ ''Lost file handles: 0'' @ newline,
            out_stderr = [], exit_code = 0,
            kvm_calls = [KvmOpenfiles, KvmNlist, KvmRead (lockhashsize_addr env) sizeof_int,
                         KvmRead (lockhash_addr env) sizeof_ulong] \<rparr>"
proof -
  have "\<not> sint (0 :: c_int) < sint n"
    using assms(5) by simp
  then have "for_bucket env n t 0 (init_state env) = Some (Finished (init_state env))"
    by (rule for_bucket_done)
  then show ?thesis
    using main_scan [OF assms(1-4)]
    by (simp add: finish_def report_def init_state_def show_int_0)
qed

lemma sint_of_nat_small:
  assumes "n < 2147483648"
  shows "sint (of_nat n :: c_int) = int n"
proof -
  have "signed_take_bit 31 (int n) = int n"
    using assms by (intro signed_take_bit_int_eq_self) simp_all
  then show ?thesis
    by (simp add: signed_of_nat)
qed

lemma show_int_nat: "show_int (int n) = show_nat n"
  by (simp add: show_int_def)

lemma main_table_image_stdout:
  assumes "table_image env cs" and "length (concat cs) < 2147483648"
  shows "\<exists>s. main env = Some (report s)
      \<and> sint (total_lockfiles s) = int (length (concat cs))
      \<and> sint (leaked_lockfiles s) = int (length (filter is_lost (concat cs)))"
proof -
  from main_table_image [OF assms(1)] obtain s where
    s: "main env = Some (report s)" "total_lockfiles s = of_nat (length (concat cs))"
      "leaked_lockfiles s = of_nat (length (filter is_lost (concat cs)))"
    by blast
  have "length (filter is_lost (concat cs)) < 2147483648"
    using length_filter_le [of is_lost "concat cs"] assms(2) by (rule le_less_trans)
  with s assms(2) show ?thesis
    by (auto simp: sint_of_nat_small)
qed

lemma sint_incr:
  fixes t :: c_int
  assumes "sint t < 2147483647"
  shows "sint (t + 1) = sint t + 1"
proof -
  have "sint t < sint (0x7FFFFFFF :: c_int)"
    using assms by simp
  then show ?thesis
    by (rule sint_succ)
qed

lemma count_lockfile_counters_ok:
  assumes "counters_ok s" and "sint (total_lockfiles s) < 2147483647"
  shows "counters_ok (count_lockfile lockfile s)"
    and "sint (total_lockfiles (count_lockfile lockfile s)) = sint (total_lockfiles s) + 1"
    and "sint (leaked_lockfiles (count_lockfile lockfile s))
           = sint (leaked_lockfiles s) + (if is_lost lockfile then 1 else 0)"
proof -
  from assms have lk: "sint (leaked_lockfiles s) < 2147483647"
    by (simp add: counters_ok_def)
  show t: "sint (total_lockfiles (count_lockfile lockfile s)) = sint (total_lockfiles s) + 1"
    using sint_incr [OF assms(2)] by simp
  show l: "sint (leaked_lockfiles (count_lockfile lockfile s))
           = sint (leaked_lockfiles s) + (if is_lost lockfile then 1 else 0)"
    using sint_incr [OF lk] by simp
  show "counters_ok (count_lockfile lockfile s)"
    using assms(1) t l unfolding counters_ok_def by (simp split: if_splits)
qed

subsection \<open>What every run of main leaves behind\<close>

lemma loop_read_not_close: "list_all loop_read tr \<Longrightarrow> KvmClose \<notin> set tr"
  by (induction tr) auto

lemma loop_read_not_size: "list_all loop_read tr \<Longrightarrow> filter is_size_read tr = []"
proof (induction tr)
  case Nil
  then show ?case by simp
next
  case (Cons c tr)
  then show ?case
    by (cases c) (auto simp: sizeof_int_def sizeof_ulong_def sizeof_nfslockfile_def)
qed

lemma loop_message_diagnostic: "loop_message env c msg \<Longrightarrow> diagnostic env c msg"
  by (auto simp: loop_message_def diagnostic_def stage_messages_def)

lemma init_calls:
  "calls (init_state env) =
     [KvmOpenfiles, KvmNlist, KvmRead (lockhashsize_addr env) sizeof_int,
      KvmRead (lockhash_addr env) sizeof_ulong]"
  by (simp add: init_state_def)

lemma init_calls_succeed:
  assumes "openfiles_ok env" and "nlist_readable env"
    and "hashsize_at env = Some n" and "hashtable_at env = Some t"
  shows "list_all (\<lambda>c. \<not> call_fails env c) (calls (init_state env))"
  using assms hashsize_at_None [of env] hashtable_at_None [of env]
  by (simp add: init_calls)

lemma run_from_init:
  assumes "for_bucket env n t 0 (init_state env) = Some r"
  obtains tr where "calls (state_of r) = calls (init_state env) @ tr" and "list_all loop_read tr"
    and "case r of
           Finished s' \<Rightarrow> list_all (\<lambda>c. \<not> call_fails env c) tr
         | Failed msg s' \<Rightarrow>
             tr \<noteq> [] \<and> list_all (\<lambda>c. \<not> call_fails env c) (butlast tr)
             \<and> call_fails env (last tr) \<and> loop_message env (last tr) msg"
  using for_bucket_run_of [OF assms] unfolding run_of_def by blast

lemma main_outcome:
  assumes "main env = Some out"
  shows "kvm_calls out \<noteq> [] \<and> hd (kvm_calls out) = KvmOpenfiles
     \<and> KvmClose \<notin> set (kvm_calls out)
     \<and> list_all (\<lambda>c. \<not> call_fails env c) (butlast (kvm_calls out))
     \<and> (if call_fails env (last (kvm_calls out))
        then exit_code out = 1 \<and> out_stdout out = []
             \<and> diagnostic env (last (kvm_calls out)) (out_stderr out)
        else exit_code out = 0 \<and> out_stderr out = [] \<and> (\<exists>s. out = report s))"
  using assms
proof (cases rule: main_cases)
  case openfiles
  then show ?thesis
    by (simp add: failure_def diagnostic_def stage_messages_def)
next
  case nlist
  then show ?thesis
    by (simp add: failure_def diagnostic_def stage_messages_def)
next
  case hashsize
  then show ?thesis
    using hashsize_at_None [of env]
    by (simp add: failure_def diagnostic_def stage_messages_def)
next
  case (hashtable n)
  then show ?thesis
    using hashsize_at_None [of env] hashtable_at_None [of env]
    by (simp add: failure_def diagnostic_def stage_messages_def)
next
  case (loop_failed n t msg s)
  from run_from_init [OF loop_failed(5)] obtain tr where
    tr: "calls s = calls (init_state env) @ tr" "list_all loop_read tr" "tr \<noteq> []"
      "list_all (\<lambda>c. \<not> call_fails env c) (butlast tr)" "call_fails env (last tr)"
      "loop_message env (last tr) msg"
    by (auto simp: state_of_def)
  have ok: "list_all (\<lambda>c. \<not> call_fails env c) (calls (init_state env))"
    using loop_failed(1-4) by (rule init_calls_succeed)
  have calls: "kvm_calls out = calls (init_state env) @ tr"
    using loop_failed(6) tr(1) by (simp add: failure_def)
  have "butlast (kvm_calls out) = calls (init_state env) @ butlast tr"
    using calls tr(3) by (simp add: butlast_append)
  moreover have "last (kvm_calls out) = last tr"
    using calls tr(3) by simp
  moreover have "KvmClose \<notin> set (kvm_calls out)"
    using calls loop_read_not_close [OF tr(2)] by (simp add: init_calls)
  moreover have "hd (kvm_calls out) = KvmOpenfiles" "kvm_calls out \<noteq> []"
    using calls by (simp_all add: init_calls)
  ultimately show ?thesis
    using ok tr(4,5) loop_message_diagnostic [OF tr(6)] loop_failed(6)
    by (simp add: failure_def)
next
  case (finished n t s)
  from run_from_init [OF finished(5)] obtain tr where
    tr: "calls s = calls (init_state env) @ tr" "list_all loop_read tr"
      "list_all (\<lambda>c. \<not> call_fails env c) tr"
    by (auto simp: state_of_def)
  have ok: "list_all (\<lambda>c. \<not> call_fails env c) (calls (init_state env))"
    using finished(1-4) by (rule init_calls_succeed)
  have calls: "kvm_calls out = calls (init_state env) @ tr"
    using finished(6) tr(1) by (simp add: report_def)
  have all: "list_all (\<lambda>c. \<not> call_fails env c) (kvm_calls out)"
    using calls ok tr(3) by simp
  have ne: "kvm_calls out \<noteq> []"
    using calls by (simp add: init_calls)
  have "\<not> call_fails env (last (kvm_calls out))"
    using all ne by (simp add: list_all_iff)
  moreover have "list_all (\<lambda>c. \<not> call_fails env c) (butlast (kvm_calls out))"
    using all by (auto simp: list_all_iff dest: in_set_butlastD)
  moreover have "KvmClose \<notin> set (kvm_calls out)"
    using calls loop_read_not_close [OF tr(2)] by (simp add: init_calls)
  moreover have "hd (kvm_calls out) = KvmOpenfiles"
    using calls by (simp add: init_calls)
  ultimately show ?thesis
    using ne finished(6) by (auto simp: report_def)
qed

lemma main_size_reads:
  assumes "main env = Some out"
  shows "filter is_size_read (kvm_calls out) =
     (if openfiles_ok env \<and> nlist_readable env
      then [KvmRead (lockhashsize_addr env) sizeof_int] else [])"
  using assms
proof (cases rule: main_cases)
  case (loop_failed n t msg s)
  from run_from_init [OF loop_failed(5)] obtain tr where
    "calls s = calls (init_state env) @ tr" "list_all loop_read tr"
    by (auto simp: state_of_def)
  then show ?thesis
    using loop_failed(1,2,6) loop_read_not_size [of tr]
    by (simp add: failure_def init_calls sizeof_int_def sizeof_ulong_def)
next
  case (finished n t s)
  from run_from_init [OF finished(5)] obtain tr where
    "calls s = calls (init_state env) @ tr" "list_all loop_read tr"
    by (auto simp: state_of_def)
  then show ?thesis
    using finished(1,2,6) loop_read_not_size [of tr]
    by (simp add: report_def init_calls sizeof_int_def sizeof_ulong_def)
qed (simp_all add: failure_def sizeof_int_def sizeof_ulong_def)

lemma main_first_calls:
  assumes "main env = Some out" and "openfiles_ok env" and "nlist_readable env"
  shows "take 3 (kvm_calls out) =
     [KvmOpenfiles, KvmNlist, KvmRead (lockhashsize_addr env) sizeof_int]"
  using assms(1)
proof (cases rule: main_cases)
  case (loop_failed n t msg s)
  from run_from_init [OF loop_failed(5)] obtain tr where
    "calls s = calls (init_state env) @ tr"
    by (auto simp: state_of_def)
  then show ?thesis
    using loop_failed(6) by (simp add: failure_def init_calls)
next
  case (finished n t s)
  from run_from_init [OF finished(5)] obtain tr where
    "calls s = calls (init_state env) @ tr"
    by (auto simp: state_of_def)
  then show ?thesis
    using finished(6) by (simp add: report_def init_calls)
qed (use assms(2,3) in \<open>simp_all add: failure_def\<close>)

lemma main_pointer_read:
  assumes "main env = Some out" and "openfiles_ok env" and "nlist_readable env"
    and "hashsize_at env = Some n"
  shows "take 4 (kvm_calls out) =
     [KvmOpenfiles, KvmNlist, KvmRead (lockhashsize_addr env) sizeof_int,
      KvmRead (lockhash_addr env) sizeof_ulong]"
  using assms(1)
proof (cases rule: main_cases)
  case (loop_failed n t msg s)
  from run_from_init [OF loop_failed(5)] obtain tr where
    "calls s = calls (init_state env) @ tr"
    by (auto simp: state_of_def)
  then show ?thesis
    using loop_failed(6) by (simp add: failure_def init_calls)
next
  case (finished n t s)
  from run_from_init [OF finished(5)] obtain tr where
    "calls s = calls (init_state env) @ tr"
    by (auto simp: state_of_def)
  then show ?thesis
    using finished(6) by (simp add: report_def init_calls)
qed (use assms(2-4) in \<open>simp_all add: failure_def\<close>)

lemma some_call_fails_iff:
  assumes "main env = Some out"
  shows "(\<exists>c\<in>set (kvm_calls out). call_fails env c) \<longleftrightarrow> call_fails env (last (kvm_calls out))"
proof
  assume "\<exists>c\<in>set (kvm_calls out). call_fails env c"
  then obtain c where c: "c \<in> set (kvm_calls out)" "call_fails env c"
    by blast
  from main_outcome [OF assms] have ne: "kvm_calls out \<noteq> []"
    and ok: "list_all (\<lambda>c. \<not> call_fails env c) (butlast (kvm_calls out))"
    by simp_all
  from ne have "kvm_calls out = butlast (kvm_calls out) @ [last (kvm_calls out)]"
    by simp
  then have "c \<in> set (butlast (kvm_calls out)) \<or> c = last (kvm_calls out)"
    using c(1) by (metis Un_iff empty_iff empty_set insert_iff list.simps(15) set_append)
  with c(2) ok show "call_fails env (last (kvm_calls out))"
    by (auto simp: list_all_iff)
next
  assume "call_fails env (last (kvm_calls out))"
  moreover from main_outcome [OF assms] have "last (kvm_calls out) \<in> set (kvm_calls out)"
    by simp
  ultimately show "\<exists>c\<in>set (kvm_calls out). call_fails env c"
    by blast
qed

lemma failed_read_iff:
  assumes "main env = Some out" and "openfiles_ok env" and "nlist_readable env"
  shows "(\<exists>kva nbytes. KvmRead kva nbytes \<in> set (kvm_calls out) \<and> mem_read env kva nbytes = None)
      \<longleftrightarrow> call_fails env (last (kvm_calls out))"
proof -
  have "(\<exists>kva nbytes. KvmRead kva nbytes \<in> set (kvm_calls out) \<and> mem_read env kva nbytes = None)
      \<longleftrightarrow> (\<exists>c\<in>set (kvm_calls out). call_fails env c)" (is "?L \<longleftrightarrow> ?R")
  proof
    assume ?L
    then show ?R by force
  next
    assume ?R
    then obtain c where c: "c \<in> set (kvm_calls out)" "call_fails env c"
      by blast
    with assms(2,3) show ?L
      by (cases c) auto
  qed
  then show ?thesis
    using some_call_fails_iff [OF assms(1)] by simp
qed

text \<open>
  The counters of a scan that ends normally: the total is the number of structs read,
  and the lost count a number that is not larger, both modulo \<open>2 ^ 32\<close>.
\<close>

lemma main_counted:
  assumes "main env = Some out" and "exit_code out = 0"
  shows "\<exists>s l. out = report s \<and> l \<le> length (filter is_struct_read (kvm_calls out))
     \<and> total_lockfiles s = of_nat (length (filter is_struct_read (kvm_calls out)))
     \<and> leaked_lockfiles s = of_nat l"
  using assms(1)
proof (cases rule: main_cases)
  case (finished n t s)
  let ?k = "\<lambda>tr. length (filter (\<lambda>c. is_struct_read c \<and> \<not> call_fails env c) tr)"
  from for_bucket_counted [OF finished(5)] obtain tr l where
    tr: "calls s = calls (init_state env) @ tr" "l \<le> ?k tr"
      "total_lockfiles s = of_nat (?k tr)" "leaked_lockfiles s = of_nat l"
    by (auto simp: counted_def state_of_def init_state_def)
  from run_from_init [OF finished(5)] obtain tr' where
    tr': "calls s = calls (init_state env) @ tr'" "list_all (\<lambda>c. \<not> call_fails env c) tr'"
    by (auto simp: state_of_def)
  from tr(1) tr'(1) have "tr' = tr"
    by simp
  with tr'(2) have "filter (\<lambda>c. is_struct_read c \<and> \<not> call_fails env c) tr = filter is_struct_read tr"
    by (auto simp: list_all_iff intro: filter_cong)
  moreover have "filter is_struct_read (kvm_calls out) = filter is_struct_read tr"
    using finished(6) tr(1)
    by (simp add: report_def init_calls sizeof_int_def sizeof_ulong_def sizeof_nfslockfile_def)
  ultimately show ?thesis
    using tr(2-4) finished(6) by auto
qed (use assms(2) in \<open>simp_all add: failure_def\<close>)

subsection \<open>Runs with at most two buckets\<close>

lemma sint_0_1: "sint (0 :: c_int) < sint (1 :: c_int)" "\<not> sint (0 + 1 :: c_int) < sint (1 :: c_int)"
  by simp_all

lemma main_one_record:
  assumes "openfiles_ok env" and "nlist_readable env"
    and "hashsize_at env = Some 1" and "hashtable_at env = Some t"
    and "head_of env t 0 = Some cur" and "cur \<noteq> 0"
    and "struct_at env cur = Some lf" and "lf_hash_le_next lf = 0"
  shows "main env =
     Some \<lparr> out_stdout = ''Total file handles: 1'' @ newline
                          @ ''Lost file handles: '' @ (if is_lost lf then ''1'' else ''0'') @ newline,
            out_stderr = [], exit_code = 0,
            kvm_calls = [KvmOpenfiles, KvmNlist, KvmRead (lockhashsize_addr env) sizeof_int,
                         KvmRead (lockhash_addr env) sizeof_ulong,
                         KvmRead (bucket_addr t 0) sizeof_ulong,
                         KvmRead cur sizeof_nfslockfile] \<rparr>"
proof -
  from head_of_head_at [OF assms(5), of "cur_bytes (init_state env)"] obtain hb where
    hb: "head_at env (cur_bytes (init_state env)) t 0 = Some hb"
      "le_word (take sizeof_ulong hb) = cur"
    by blast
  let ?s0 = "enter_bucket (bucket_addr t 0) hb (init_state env)"
  from struct_at_lockfile_at [OF assms(7), of "lockfile_bytes ?s0"] obtain buf where
    buf: "lockfile_at env (lockfile_bytes ?s0) cur = Some buf" "decode_nfslockfile buf = lf"
    by blast
  let ?s1 = "visit cur buf ?s0"
  have "while_cur env cur ?s0 = Some (Finished ?s1)"
    using while_cur_step [OF assms(6) buf(1)] buf(2) assms(8) by (simp add: while_cur_null)
  then have "for_bucket env 1 t 0 (init_state env) = Some (Finished ?s1)"
    using for_bucket_step [OF sint_0_1(1) hb(1)] hb(2)
      for_bucket_done [OF sint_0_1(2), of env t ?s1]
    by simp
  then have "main env = Some (report ?s1)"
    using main_scan [OF assms(1-4)] by (simp add: finish_def)
  then show ?thesis
    using buf(2) by (simp add: report_def init_state_def show_int_0 show_int_1)
qed

lemma main_broken_chain:
  assumes "openfiles_ok env" and "nlist_readable env"
    and "hashsize_at env = Some 1" and "hashtable_at env = Some t"
    and "head_of env t 0 = Some cur" and "cur \<noteq> 0"
    and "struct_at env cur = Some lf" and "lf_hash_le_next lf \<noteq> 0"
    and "mem_read env (lf_hash_le_next lf) sizeof_nfslockfile = None"
  shows "main env =
     Some (failure (''Failed to read lockfile: ''
                      @ kvm_geterr env (KvmRead (lf_hash_le_next lf) sizeof_nfslockfile))
             [KvmOpenfiles, KvmNlist, KvmRead (lockhashsize_addr env) sizeof_int,
              KvmRead (lockhash_addr env) sizeof_ulong,
              KvmRead (bucket_addr t 0) sizeof_ulong,
              KvmRead cur sizeof_nfslockfile,
              KvmRead (lf_hash_le_next lf) sizeof_nfslockfile])"
proof -
  from head_of_head_at [OF assms(5), of "cur_bytes (init_state env)"] obtain hb where
    hb: "head_at env (cur_bytes (init_state env)) t 0 = Some hb"
      "le_word (take sizeof_ulong hb) = cur"
    by blast
  let ?s0 = "enter_bucket (bucket_addr t 0) hb (init_state env)"
  from struct_at_lockfile_at [OF assms(7), of "lockfile_bytes ?s0"] obtain buf where
    buf: "lockfile_at env (lockfile_bytes ?s0) cur = Some buf" "decode_nfslockfile buf = lf"
    by blast
  let ?s1 = "visit cur buf ?s0"
  let ?msg = "''Failed to read lockfile: ''
                @ kvm_geterr env (KvmRead (lf_hash_le_next lf) sizeof_nfslockfile)"
  let ?s2 = "log_call (KvmRead (lf_hash_le_next lf) sizeof_nfslockfile) ?s1"
  have "lockfile_at env (lockfile_bytes ?s1) (lf_hash_le_next lf) = None"
    using assms(9) by (simp only: lockfile_at_None)
  then have "while_cur env cur ?s0 = Some (Failed ?msg ?s2)"
    using while_cur_step [OF assms(6) buf(1)] buf(2) while_cur_fault [OF assms(8), of env ?s1]
    by simp
  then have "for_bucket env 1 t 0 (init_state env) = Some (Failed ?msg ?s2)"
    using for_bucket_step [OF sint_0_1(1) hb(1)] hb(2) by simp
  then have "main env = Some (failure ?msg (calls ?s2))"
    using main_scan [OF assms(1-4)] by (simp add: finish_def)
  then show ?thesis
    by (simp add: init_state_def)
qed

lemma main_no_head:
  assumes "openfiles_ok env" and "nlist_readable env"
    and "hashsize_at env = Some n" and "hashtable_at env = Some t"
    and "0 < sint n" and "mem_read env (bucket_addr t 0) sizeof_ulong = None"
  shows "main env =
     Some (failure (''Failed to read bucket pointer: ''
                      @ kvm_geterr env (KvmRead (bucket_addr t 0) sizeof_ulong))
             [KvmOpenfiles, KvmNlist, KvmRead (lockhashsize_addr env) sizeof_int,
              KvmRead (lockhash_addr env) sizeof_ulong,
              KvmRead (bucket_addr t 0) sizeof_ulong])"
proof -
  have "sint (0 :: c_int) < sint n"
    using assms(5) by simp
  moreover have "head_at env (cur_bytes (init_state env)) t 0 = None"
    using assms(6) by (simp only: head_at_None)
  ultimately show ?thesis
    using for_bucket_fault [of 0 n env "init_state env" t] main_scan [OF assms(1-4)]
    by (simp add: finish_def init_state_def)
qed

text \<open>
  Two buckets with one struct each, whatever the reads transfer: the state in which
  the third bucket is reached.
\<close>

lemma for_bucket_two_singles:
  fixes a0 a1 :: c_ulong
  assumes "sint (1 :: c_int) < sint n"
    and "head_at env (cur_bytes s) t 0 = Some h0"
    and "le_word (take sizeof_ulong h0) = a0" and "a0 \<noteq> 0"
    and "lockfile_at env (lockfile_bytes s) a0 = Some b0"
    and "lf_hash_le_next (decode_nfslockfile b0) = 0"
    and "head_at env (field 40 8 b0) t 1 = Some h1"
    and "le_word (take sizeof_ulong h1) = a1" and "a1 \<noteq> 0"
    and "lockfile_at env b0 a1 = Some b1"
    and "lf_hash_le_next (decode_nfslockfile b1) = 0"
  shows "for_bucket env n t 0 s =
     for_bucket env n t 2
       (visit a1 b1 (enter_bucket (bucket_addr t 1) h1
          (visit a0 b0 (enter_bucket (bucket_addr t 0) h0 s))))"
proof -
  let ?s0 = "enter_bucket (bucket_addr t 0) h0 s"
  let ?s1 = "visit a0 b0 ?s0"
  let ?s2 = "enter_bucket (bucket_addr t 1) h1 ?s1"
  let ?s3 = "visit a1 b1 ?s2"
  have lt0: "sint (0 :: c_int) < sint n"
    using assms(1) by simp
  have w0: "while_cur env a0 ?s0 = Some (Finished ?s1)"
    using while_cur_step [OF assms(4), of env ?s0 b0] assms(5,6) by (simp add: while_cur_null)
  have w1: "while_cur env a1 ?s2 = Some (Finished ?s3)"
    using while_cur_step [OF assms(9), of env ?s2 b1] assms(10,11) by (simp add: while_cur_null)
  have "for_bucket env n t 0 s = for_bucket env n t (0 + 1) ?s1"
    using for_bucket_step [OF lt0 assms(2)] assms(3) w0 by simp
  also have "\<dots> = for_bucket env n t 1 ?s1"
    by simp
  also have "\<dots> = for_bucket env n t (1 + 1) ?s3"
    using for_bucket_step [OF assms(1), of env ?s1 t h1] assms(7,8) w1 by simp
  also have "\<dots> = for_bucket env n t 2 ?s3"
    by simp
  finally show ?thesis .
qed

subsection \<open>Evaluating the scenarios\<close>

lemmas image_simps =
  image_def both_symbols_def one_bucket_def lockhash_addr_def lockhashsize_addr_def kvm_nlist_def kvm_read_def
  hashsize_at_def hashtable_at_def head_at_def lockfile_at_def full_read_def head_of_def struct_at_def
  bucket_addr_def sizeof_int_def sizeof_ulong_def sizeof_nfslockfile_def
  SYMBOL_LOCKHASH_def SYMBOL_LOCKHASH_SIZE_def le_word_def

lemma le_nat_replicate_zero [simp]: "le_nat (replicate n 0) = 0"
  by (induction n) simp_all

lemma le_word_zeros: "le_word (replicate n 0) = 0"
  by (simp add: le_word_def)

lemma replicate_4: "replicate 4 x = [x, x, x, x]"
  by (simp add: eval_nat_numeral)

lemma replicate_8: "replicate 8 x = [x, x, x, x, x, x, x, x]"
  by (simp add: eval_nat_numeral)

lemma orphan_opened: "openfiles_ok orphan_image" "nlist_readable orphan_image"
  by (simp_all add: orphan_image_def image_def)

lemma orphan_symbols: "lockhash_addr orphan_image = 0x1000" "lockhashsize_addr orphan_image = 0x2000"
  by (simp_all add: orphan_image_def image_simps)

lemma orphan_hashsize: "hashsize_at orphan_image = Some 1"
  by (simp add: orphan_image_def image_simps)

lemma orphan_hashtable: "hashtable_at orphan_image = Some 0x3000"
  by (simp add: orphan_image_def image_simps)

lemma orphan_head: "head_of orphan_image 0x3000 0 = Some 0x4000"
  by (simp add: orphan_image_def image_simps)

lemma orphan_lockfile: "struct_at orphan_image 0x4000 = Some (decode_nfslockfile (replicate 96 0))"
  by (simp add: orphan_image_def image_simps)

lemma zero_record_decoded: "lf_hash_le_next (decode_nfslockfile (replicate 96 0)) = 0"
  "is_lost (decode_nfslockfile (replicate 96 0))"
  by (simp_all add: decode_nfslockfile_def field_def le_word_def is_lost_def)

lemma orphan_table: "table_image orphan_image [[decode_nfslockfile (replicate 96 0)]]"
  by (simp add: table_image_def orphan_opened orphan_hashsize orphan_hashtable orphan_head orphan_lockfile zero_record_decoded)

lemma orphan_run:
  "main orphan_image =
     Some \<lparr> out_stdout = ''Total file handles: 1'' @ newline @ ''Lost file handles: 1'' @ newline,
            out_stderr = [], exit_code = 0,
            kvm_calls = [KvmOpenfiles, KvmNlist, KvmRead 0x2000 4, KvmRead 0x1000 8,
                         KvmRead 0x3000 8, KvmRead 0x4000 96] \<rparr>"
  using main_one_record [of orphan_image "0x3000" "0x4000" "decode_nfslockfile (replicate 96 0)"]
  by (simp add: orphan_opened orphan_symbols orphan_hashsize orphan_hashtable orphan_head orphan_lockfile zero_record_decoded
      bucket_addr_def sizeof_int_def sizeof_ulong_def sizeof_nfslockfile_def)

lemma broken_chain_facts:
  "openfiles_ok broken_chain_image" "nlist_readable broken_chain_image"
  "lockhash_addr broken_chain_image = 0x1000" "lockhashsize_addr broken_chain_image = 0x2000"
  "hashsize_at broken_chain_image = Some 1" "hashtable_at broken_chain_image = Some 0x3000"
  "head_of broken_chain_image 0x3000 0 = Some 0x4000"
  "mem_read broken_chain_image 0x5000 96 = None"
  "kvm_geterr broken_chain_image c = ''Bad address''"
  by (simp_all add: broken_chain_image_def image_simps)

lemma broken_chain_record:
  "\<exists>lf. struct_at broken_chain_image 0x4000 = Some lf \<and> lf_hash_le_next lf = 0x5000"
  by (simp add: broken_chain_image_def image_simps decode_nfslockfile_def field_def)

lemma broken_chain_run:
  "main broken_chain_image =
     Some \<lparr> out_stdout = [], out_stderr = ''Failed to read lockfile: Bad address'',
            exit_code = 1,
            kvm_calls = [KvmOpenfiles, KvmNlist, KvmRead 0x2000 4, KvmRead 0x1000 8,
                         KvmRead 0x3000 8, KvmRead 0x4000 96, KvmRead 0x5000 96] \<rparr>"
proof -
  from broken_chain_record obtain lf where
    lf: "struct_at broken_chain_image 0x4000 = Some lf" "lf_hash_le_next lf = 0x5000"
    by blast
  show ?thesis
    using main_broken_chain [of broken_chain_image "0x3000" "0x4000" lf] lf
    by (simp add: broken_chain_facts failure_def bucket_addr_def sizeof_int_def sizeof_ulong_def
        sizeof_nfslockfile_def)
qed

lemma short_count_facts:
  "openfiles_ok short_count_image" "nlist_readable short_count_image"
  "lockhash_addr short_count_image = 0x1000" "lockhashsize_addr short_count_image = 0x2000"
  "mem_read short_count_image 0x2000 4 = Some []"
  "fst (kvm_read short_count_image 0x2000 (uninit short_count_image V_lockfilehashsize) 4) = 0"
  "hashsize_at short_count_image = Some 0xAAAAAAAA" "hashtable_at short_count_image = Some 0x3000"
  by (simp_all add: short_count_image_def image_simps replicate_4)

lemma short_count_run:
  "main short_count_image =
     Some \<lparr> out_stdout = ''Total file handles: 0'' @ newline @ ''Lost file handles: 0'' @ newline,
            out_stderr = [], exit_code = 0,
            kvm_calls = [KvmOpenfiles, KvmNlist, KvmRead 0x2000 4, KvmRead 0x1000 8] \<rparr>"
  using main_no_bucket [of short_count_image "0xAAAAAAAA" "0x3000"]
  by (simp add: short_count_facts sizeof_int_def sizeof_ulong_def)

lemma negative_count_facts:
  "openfiles_ok negative_count_image" "nlist_readable negative_count_image"
  "lockhash_addr negative_count_image = 0x1000" "lockhashsize_addr negative_count_image = 0x2000"
  "hashsize_at negative_count_image = Some (- 1)" "hashtable_at negative_count_image = Some 0x3000"
  by (simp_all add: negative_count_image_def image_simps)

lemma negative_count_run:
  "main negative_count_image =
     Some \<lparr> out_stdout = ''Total file handles: 0'' @ newline @ ''Lost file handles: 0'' @ newline,
            out_stderr = [], exit_code = 0,
            kvm_calls = [KvmOpenfiles, KvmNlist, KvmRead 0x2000 4, KvmRead 0x1000 8] \<rparr>"
  using main_no_bucket [of negative_count_image "- 1" "0x3000"]
  by (simp add: negative_count_facts sizeof_int_def sizeof_ulong_def)

lemma int_min_count_facts:
  "openfiles_ok int_min_count_image" "nlist_readable int_min_count_image"
  "lockhash_addr int_min_count_image = 0x1000" "lockhashsize_addr int_min_count_image = 0x2000"
  "hashsize_at int_min_count_image = Some 0x80000000" "hashtable_at int_min_count_image = Some 0x3000"
  by (simp_all add: int_min_count_image_def image_simps)

lemma int_min_count_run:
  "main int_min_count_image =
     Some \<lparr> out_stdout = ''Total file handles: 0'' @ newline @ ''Lost file handles: 0'' @ newline,
            out_stderr = [], exit_code = 0,
            kvm_calls = [KvmOpenfiles, KvmNlist, KvmRead 0x2000 4, KvmRead 0x1000 8] \<rparr>"
  using main_no_bucket [of int_min_count_image "0x80000000" "0x3000"]
  by (simp add: int_min_count_facts sizeof_int_def sizeof_ulong_def)

lemma no_bucket_array_facts:
  "openfiles_ok no_bucket_array_image" "nlist_readable no_bucket_array_image"
  "lockhash_addr no_bucket_array_image = 0x1000" "lockhashsize_addr no_bucket_array_image = 0x2000"
  "hashsize_at no_bucket_array_image = Some 1" "hashtable_at no_bucket_array_image = Some 0x3000"
  "mem_read no_bucket_array_image 0x3000 8 = None"
  "kvm_geterr no_bucket_array_image c = ''Bad address''"
  by (simp_all add: no_bucket_array_image_def image_simps)

lemma no_bucket_array_run:
  "main no_bucket_array_image =
     Some \<lparr> out_stdout = [], out_stderr = ''Failed to read bucket pointer: Bad address'',
            exit_code = 1,
            kvm_calls = [KvmOpenfiles, KvmNlist, KvmRead 0x2000 4, KvmRead 0x1000 8,
                         KvmRead 0x3000 8] \<rparr>"
  using main_no_head [of no_bucket_array_image 1 "0x3000"]
  by (simp add: no_bucket_array_facts failure_def bucket_addr_def sizeof_int_def sizeof_ulong_def)

subsection \<open>The images with a short read of a struct\<close>

lemma open_record_decoded:
  "lf_open (decode_nfslockfile open_record) = 1"
  "lf_lock (decode_nfslockfile open_record) = 0"
  "lf_hash_le_next (decode_nfslockfile open_record) = 0"
  "field 40 8 open_record = replicate 8 0"
  "length open_record = 96"
  "\<not> is_lost (decode_nfslockfile open_record)"
  by (simp_all add: decode_nfslockfile_def open_record_def field_def le_word_def is_lost_def)

lemma replicate_96_zeros: "replicate 96 (0 :: byte) = [0, 0, 0, 0, 0, 0, 0, 0] @ replicate 88 0"
proof -
  have "replicate 96 (0 :: byte) = replicate 8 0 @ replicate 88 0"
    by (simp flip: replicate_add)
  then show ?thesis
    by (simp only: replicate_8)
qed

lemma short_second_reads:
  assumes "env = short_second_image \<or> env = short_then_fault_image"
  shows "openfiles_ok env" "nlist_readable env"
    "lockhash_addr env = 0x1000" "lockhashsize_addr env = 0x2000"
    "hashtable_at env = Some 0x3000"
    "uninit env V_cur = replicate 8 0xAA" "uninit env V_lockfile = replicate 96 0xAA"
    "mem_read env 0x3000 8 = Some [0, 0x40, 0, 0, 0, 0, 0, 0]"
    "mem_read env 0x3008 8 = Some [0, 0x50, 0, 0, 0, 0, 0, 0]"
    "mem_read env 0x4000 96 = Some open_record"
    "mem_read env 0x5000 96 = Some [0, 0, 0, 0, 0, 0, 0, 0]"
    "mem_read env 0x3010 8 = None"
    "kvm_geterr env c = ''Bad address''"
  using assms
  by (auto simp: short_second_image_def short_then_fault_image_def short_second_regions_def image_simps)

lemma short_second_hashsize:
  "hashsize_at short_second_image = Some 2" "hashsize_at short_then_fault_image = Some 3"
  by (simp_all add: short_second_image_def short_then_fault_image_def short_second_regions_def image_simps)

lemma short_second_walk:
  assumes "env = short_second_image \<or> env = short_then_fault_image"
    and "sint (1 :: c_int) < sint n"
  shows "for_bucket env n 0x3000 0 (init_state env) =
     for_bucket env n 0x3000 2
       \<lparr> total_lockfiles = 2, leaked_lockfiles = 1,
         cur_bytes = replicate 8 0, lockfile_bytes = replicate 96 0,
         calls = [KvmOpenfiles, KvmNlist, KvmRead 0x2000 4, KvmRead 0x1000 8,
                  KvmRead 0x3000 8, KvmRead 0x4000 96, KvmRead 0x3008 8, KvmRead 0x5000 96] \<rparr>"
proof -
  note r = short_second_reads [OF assms(1)]
  have addr: "bucket_addr 0x3000 0 = 0x3000" "bucket_addr 0x3000 1 = 0x3008"
    by (simp_all add: bucket_addr_def sizeof_ulong_def)
  have h0: "head_at env (cur_bytes (init_state env)) 0x3000 0 = Some [0, 0x40, 0, 0, 0, 0, 0, 0]"
    using head_at_Some [of env "0x3000" 0 "[0, 0x40, 0, 0, 0, 0, 0, 0]" "cur_bytes (init_state env)"]
    by (simp add: addr r sizeof_ulong_def init_state_def)
  have b0: "lockfile_at env (lockfile_bytes (init_state env)) 0x4000 = Some open_record"
    using lockfile_at_Some [of env "0x4000" open_record "lockfile_bytes (init_state env)"]
    by (simp add: r sizeof_nfslockfile_def init_state_def open_record_decoded)
  have h1: "head_at env (field 40 8 open_record) 0x3000 1 = Some [0, 0x50, 0, 0, 0, 0, 0, 0]"
    using head_at_Some [of env "0x3000" 1 "[0, 0x50, 0, 0, 0, 0, 0, 0]" "field 40 8 open_record"]
    by (simp add: addr r sizeof_ulong_def open_record_decoded)
  have b1: "lockfile_at env open_record 0x5000 = Some (replicate 96 0)"
    using lockfile_at_Some [of env "0x5000" "[0, 0, 0, 0, 0, 0, 0, 0]" open_record]
    by (simp add: r sizeof_nfslockfile_def open_record_def replicate_96_zeros)
  have a: "(le_word (take sizeof_ulong [0, 0x40, 0, 0, 0, 0, 0, 0 :: byte]) :: c_ulong) = 0x4000"
    "(le_word (take sizeof_ulong [0, 0x50, 0, 0, 0, 0, 0, 0 :: byte]) :: c_ulong) = 0x5000"
    by (simp_all add: le_word_def sizeof_ulong_def)
  have nz: "(0x4000 :: c_ulong) \<noteq> 0" "(0x5000 :: c_ulong) \<noteq> 0"
    by simp_all
  have "for_bucket env n 0x3000 0 (init_state env) =
     for_bucket env n 0x3000 2
       (visit 0x5000 (replicate 96 0) (enter_bucket (bucket_addr 0x3000 1) [0, 0x50, 0, 0, 0, 0, 0, 0]
          (visit 0x4000 open_record (enter_bucket (bucket_addr 0x3000 0) [0, 0x40, 0, 0, 0, 0, 0, 0]
             (init_state env)))))"
    by (rule for_bucket_two_singles [OF assms(2) h0 a(1) nz(1) b0 open_record_decoded(3)
          h1 a(2) nz(2) b1 zero_record_decoded(1)])
  moreover have "visit 0x5000 (replicate 96 0) (enter_bucket (bucket_addr 0x3000 1) [0, 0x50, 0, 0, 0, 0, 0, 0]
          (visit 0x4000 open_record (enter_bucket (bucket_addr 0x3000 0) [0, 0x40, 0, 0, 0, 0, 0, 0]
             (init_state env))))
      = \<lparr> total_lockfiles = 2, leaked_lockfiles = 1,
          cur_bytes = replicate 8 0, lockfile_bytes = replicate 96 0,
          calls = [KvmOpenfiles, KvmNlist, KvmRead 0x2000 4, KvmRead 0x1000 8,
                   KvmRead 0x3000 8, KvmRead 0x4000 96, KvmRead 0x3008 8, KvmRead 0x5000 96] \<rparr>"
    by (simp add: visit_def enter_bucket_def count_lockfile_def log_call_def init_state_def
        addr r open_record_decoded zero_record_decoded field_def
        sizeof_int_def sizeof_ulong_def sizeof_nfslockfile_def)
  ultimately show ?thesis
    by simp
qed

lemma short_second_run:
  "main short_second_image =
     Some \<lparr> out_stdout = ''Total file handles: 2'' @ newline @ ''Lost file handles: 1'' @ newline,
            out_stderr = [], exit_code = 0,
            kvm_calls = [KvmOpenfiles, KvmNlist, KvmRead 0x2000 4, KvmRead 0x1000 8,
                         KvmRead 0x3000 8, KvmRead 0x4000 96, KvmRead 0x3008 8, KvmRead 0x5000 96] \<rparr>"
proof -
  have env: "short_second_image = short_second_image \<or> short_second_image = short_then_fault_image"
    by simp
  note r = short_second_reads [OF env]
  have lt: "sint (1 :: c_int) < sint (2 :: c_int)" and ge: "\<not> sint (2 :: c_int) < sint (2 :: c_int)"
    by simp_all
  show ?thesis
    using main_scan [OF r(1,2) short_second_hashsize(1) r(5)]
      short_second_walk [OF env lt] for_bucket_done [OF ge]
    by (simp add: finish_def report_def show_int_1 show_int_2)
qed

lemma short_then_fault_run:
  "main short_then_fault_image =
     Some \<lparr> out_stdout = [], out_stderr = ''Failed to read bucket pointer: Bad address'',
            exit_code = 1,
            kvm_calls = [KvmOpenfiles, KvmNlist, KvmRead 0x2000 4, KvmRead 0x1000 8,
                         KvmRead 0x3000 8, KvmRead 0x4000 96, KvmRead 0x3008 8, KvmRead 0x5000 96,
                         KvmRead 0x3010 8] \<rparr>"
proof -
  have env: "short_then_fault_image = short_second_image \<or> short_then_fault_image = short_then_fault_image"
    by simp
  note r = short_second_reads [OF env]
  let ?s = "\<lparr> total_lockfiles = 2, leaked_lockfiles = 1,
         cur_bytes = replicate 8 0, lockfile_bytes = replicate 96 0,
         calls = [KvmOpenfiles, KvmNlist, KvmRead 0x2000 4, KvmRead 0x1000 8,
                  KvmRead 0x3000 8, KvmRead 0x4000 96, KvmRead 0x3008 8, KvmRead 0x5000 96] \<rparr>"
  have lt: "sint (1 :: c_int) < sint (3 :: c_int)" "sint (2 :: c_int) < sint (3 :: c_int)"
    by simp_all
  have addr: "bucket_addr 0x3000 2 = 0x3010"
    by (simp add: bucket_addr_def sizeof_ulong_def)
  have "head_at short_then_fault_image (cur_bytes ?s) 0x3000 2 = None"
    using r(12) by (simp add: head_at_None addr sizeof_ulong_def)
  from for_bucket_fault [OF lt(2) this]
  show ?thesis
    using main_scan [OF r(1,2) short_second_hashsize(2) r(5)] short_second_walk [OF env lt(1)]
    by (simp add: finish_def failure_def addr r sizeof_ulong_def)
qed

text \<open>
  The image whose second struct is in the chain of the first and is read short: the
  read transfers 40 bytes, \<^verbatim>\<open>le_next\<close> keeps the value it had in the first struct,
  which is the address of the second, and the walk reads the second struct for ever.
\<close>

lemma short_in_chain_facts:
  "openfiles_ok short_in_chain_image" "nlist_readable short_in_chain_image"
  "hashsize_at short_in_chain_image = Some 1" "hashtable_at short_in_chain_image = Some 0x3000"
  "uninit short_in_chain_image V_cur = replicate 8 0xAA"
  "uninit short_in_chain_image V_lockfile = replicate 96 0xAA"
  "head_at short_in_chain_image (replicate 8 0xAA) 0x3000 0 = Some [0, 0x40, 0, 0, 0, 0, 0, 0]"
  "lockfile_at short_in_chain_image (replicate 96 0xAA) 0x4000 = Some linked_record"
  "lockfile_at short_in_chain_image linked_record 0x5000 = Some linked_record"
  "lf_hash_le_next (decode_nfslockfile linked_record) = 0x5000"
  by (simp_all add: short_in_chain_image_def linked_record_def image_simps decode_nfslockfile_def
      field_def)

lemma short_in_chain_follow:
  "follow (Suc 0) short_in_chain_image (replicate 96 0xAA) 0x4000 = Some (linked_record, 0x5000)"
  "follow (Suc 0) short_in_chain_image linked_record 0x5000 = Some (linked_record, 0x5000)"
  by (simp_all add: short_in_chain_facts)

lemma short_in_chain_never_returns: "main short_in_chain_image = None"
proof -
  let ?s0 = "enter_bucket (bucket_addr 0x3000 0) [0, 0x40, 0, 0, 0, 0, 0, 0]
               (init_state short_in_chain_image)"
  have slot: "lockfile_bytes ?s0 = replicate 96 0xAA" "cur_bytes (init_state short_in_chain_image) = replicate 8 0xAA"
    by (simp_all add: init_state_def short_in_chain_facts)
  have "while_cur short_in_chain_image 0x4000 ?s0 = None"
    by (rule walk_into_cycle [where j = "Suc 0" and m = 0 and slot = linked_record and c = "0x5000"])
       (simp_all only: slot short_in_chain_follow)
  moreover have "(le_word (take sizeof_ulong [0, 0x40, 0, 0, 0, 0, 0, 0 :: byte]) :: c_ulong) = 0x4000"
    by (simp add: le_word_def sizeof_ulong_def)
  ultimately have "for_bucket short_in_chain_image 1 0x3000 0 (init_state short_in_chain_image) = None"
    using for_bucket_step [OF sint_0_1(1), of short_in_chain_image "init_state short_in_chain_image"
        "0x3000" "[0, 0x40, 0, 0, 0, 0, 0, 0]"]
    by (simp add: slot short_in_chain_facts)
  then show ?thesis
    using main_scan [OF short_in_chain_facts(1-4)] by simp
qed

subsection \<open>The image with \<open>2 ^ 31\<close> structs\<close>

lemma length_le_bytes [simp]: "length (le_bytes k v) = k"
  by (induction k arbitrary: v) simp_all

lemma le_nat_le_bytes: "le_nat (le_bytes k v) = v mod 256 ^ k"
proof (induction k arbitrary: v)
  case 0
  then show ?case by simp
next
  case (Suc k)
  have "unat (of_nat (v mod 256) :: byte) = v mod 256"
    by (simp add: unat_of_nat)
  then have "le_nat (le_bytes (Suc k) v) = v mod 256 + 256 * (v div 256 mod 256 ^ k)"
    using Suc.IH [of "v div 256"] by simp
  also have "\<dots> = v mod 256 ^ Suc k"
    by (simp add: mod_mult2_eq)
  finally show ?case .
qed

lemma le_word_le_bytes_8: "(le_word (le_bytes 8 v) :: c_ulong) = of_nat v"
proof -
  have "(of_nat (v mod 256 ^ 8) :: c_ulong) = of_nat v"
    by (simp add: word_of_nat_eq_iff take_bit_eq_mod)
  then show ?thesis
    by (simp add: le_word_def le_nat_le_bytes)
qed

lemma length_big_lockfile [simp]: "length (big_lockfile a) = 96"
  by (simp add: big_lockfile_def)

lemma big_lockfile_fields:
  "field 0 8 (big_lockfile a) = le_bytes 8 (if a = 0x80 then 1 else 0)"
  "field 16 8 (big_lockfile a) = replicate 8 0"
  "field 40 8 (big_lockfile a) = le_bytes 8 (if a = 0x4000000000 then 0 else a + 0x80)"
  by (simp_all add: field_def big_lockfile_def)

lemma big_struct_fields:
  "lf_open (big_struct k) = (if k = 1 then 1 else 0)"
  "lf_lock (big_struct k) = 0"
  "lf_hash_le_next (big_struct k) = (if k = 2147483648 then 0 else big_addr (Suc k))"
proof -
  have "(0x80 * k = 0x80) = (k = 1)" "(0x80 * k = 0x4000000000) = (k = 2147483648)"
    by auto
  then show "lf_open (big_struct k) = (if k = 1 then 1 else 0)"
    "lf_lock (big_struct k) = 0"
    "lf_hash_le_next (big_struct k) = (if k = 2147483648 then 0 else big_addr (Suc k))"
    by (simp_all add: big_struct_def decode_nfslockfile_def big_lockfile_fields
        le_word_le_bytes_8 le_word_zeros big_addr_def algebra_simps)
qed

lemma big_struct_lost: "is_lost (big_struct k) \<longleftrightarrow> k \<noteq> 1"
  by (simp add: is_lost_def big_struct_fields)

lemma unat_big_addr:
  assumes "k \<le> 2147483648"
  shows "unat (big_addr k) = 0x80 * k"
proof -
  have "unat (of_nat (0x80 * k) :: c_ulong) = (0x80 * k) mod 2 ^ LENGTH(64)"
    by (rule unat_of_nat)
  also have "\<dots> = 0x80 * k"
    using assms by simp
  finally show ?thesis
    unfolding big_addr_def .
qed

lemma big_lockfile_at:
  assumes "1 \<le> k" and "k \<le> 2147483648"
  shows "struct_at big_image (big_addr k) = Some (big_struct k)"
proof -
  have "mem_read big_image (big_addr k) sizeof_nfslockfile = Some (big_lockfile (0x80 * k))"
    using assms by (simp add: big_image_def unat_big_addr [OF assms(2)])
  then show ?thesis
    by (simp add: struct_at_def full_read_def sizeof_nfslockfile_def big_struct_def)
qed

lemma big_addr_nonzero:
  assumes "1 \<le> k" and "k \<le> 2147483648"
  shows "big_addr k \<noteq> 0"
proof
  assume "big_addr k = 0"
  then have "unat (big_addr k) = 0"
    by simp
  with assms show False
    by (simp add: unat_big_addr [OF assms(2)])
qed

lemma big_records_chain:
  assumes "1 \<le> k" and "k + n = 2147483649"
  shows "chain big_image (if n = 0 then 0 else big_addr k) (big_records k n)"
  using assms
proof (induction n arbitrary: k)
  case 0
  then show ?case by simp
next
  case (Suc n)
  then have k: "1 \<le> k" "k \<le> 2147483648"
    by simp_all
  have next_addr: "lf_hash_le_next (big_struct k) = (if n = 0 then 0 else big_addr (Suc k))"
    using Suc.prems by (simp add: big_struct_fields)
  have "chain big_image (if n = 0 then 0 else big_addr (Suc k)) (big_records (Suc k) n)"
    using Suc.prems by (intro Suc.IH) simp_all
  then show ?case
    using big_addr_nonzero [OF k] big_lockfile_at [OF k] next_addr by simp
qed

lemma length_big_records [simp]: "length (big_records k n) = n"
  by (induction n arbitrary: k) simp_all

lemma lost_big_records: "2 \<le> k \<Longrightarrow> filter is_lost (big_records k n) = big_records k n"
  by (induction n arbitrary: k) (simp_all add: big_struct_lost)

lemma big_chain_unfold: "big_chain = big_struct 1 # big_records 2 2147483647"
proof -
  have "big_records 1 (Suc 2147483647) = big_struct 1 # big_records (Suc 1) 2147483647"
    by (rule big_records.simps)
  moreover have "Suc 2147483647 = 2147483648" "Suc 1 = 2"
    by simp_all
  ultimately show ?thesis
    by (simp only: big_chain_def)
qed

lemma big_chain_counts:
  "length big_chain = 2147483648" "length (filter is_lost big_chain) = 2147483647"
  unfolding big_chain_unfold by (simp_all add: big_struct_lost lost_big_records)

lemma big_image_facts:
  "openfiles_ok big_image" "nlist_readable big_image"
  "hashsize_at big_image = Some 1" "hashtable_at big_image = Some 0x10000000010"
  "head_of big_image 0x10000000010 0 = Some 0x80"
  by (simp_all add: big_image_def kvm_nlist_def kvm_read_def
      lockhash_addr_def lockhashsize_addr_def hashsize_at_def hashtable_at_def head_of_def
      full_read_def bucket_addr_def sizeof_int_def sizeof_ulong_def
      SYMBOL_LOCKHASH_def SYMBOL_LOCKHASH_SIZE_def le_word_def)

lemma big_table: "table_image big_image [big_chain]"
proof -
  have "chain big_image (big_addr 1) (big_records 1 2147483648)"
    using big_records_chain [of 1 2147483648] by simp
  moreover have "big_addr 1 = 0x80"
    by (simp add: big_addr_def)
  ultimately have "chain big_image 0x80 big_chain"
    by (simp add: big_chain_def)
  then show ?thesis
    by (simp add: table_image_def big_image_facts)
qed

lemma big_image_run:
  "\<exists>s. main big_image = Some (report s)
      \<and> total_lockfiles s = 0x80000000 \<and> leaked_lockfiles s = 0x7FFFFFFF"
  using main_table_image [OF big_table] by (simp add: big_chain_counts)

subsection \<open>The table with two buckets and the struct that points to itself\<close>

lemma live_record_decoded:
  "lf_open (decode_nfslockfile live_record) = 1"
  "lf_lock (decode_nfslockfile live_record) = 0"
  "lf_hash_le_next (decode_nfslockfile live_record) = 0x5000"
  "length live_record = 96"
  by (simp_all add: decode_nfslockfile_def live_record_def field_def le_word_def)

lemma two_bucket_table:
  "table_image two_bucket_image
     [[decode_nfslockfile live_record, decode_nfslockfile (replicate 96 0)], []]"
  by (simp add: table_image_def two_bucket_image_def image_simps live_record_decoded zero_record_decoded)

lemma two_bucket_lost:
  "\<not> is_lost (decode_nfslockfile live_record)" "is_lost (decode_nfslockfile (replicate 96 0))"
proof -
  show "\<not> is_lost (decode_nfslockfile live_record)"
    by (simp add: is_lost_def live_record_decoded)
  show "is_lost (decode_nfslockfile (replicate 96 0))"
    by (rule zero_record_decoded)
qed

lemma orphan_walks_end:
  "map_option (\<lambda>buf. le_word (take sizeof_ulong buf) :: c_ulong) (head_at orphan_image cslot 0x3000 0)
     = Some 0x4000"
  "ends_within (Suc 0) orphan_image lslot 0x4000"
proof -
  have rd: "mem_read orphan_image (bucket_addr 0x3000 0) sizeof_ulong = Some [0, 0x40, 0, 0, 0, 0, 0, 0]"
    "mem_read orphan_image 0x4000 sizeof_nfslockfile = Some (replicate 96 0)"
    by (simp_all add: orphan_image_def image_simps)
  show "map_option (\<lambda>buf. le_word (take sizeof_ulong buf) :: c_ulong)
      (head_at orphan_image cslot 0x3000 0) = Some 0x4000"
    by (simp add: head_at_Some [OF rd(1)]) (simp add: sizeof_ulong_def le_word_def)
  have "decode_nfslockfile (replicate 96 0 @ drop 96 lslot) = decode_nfslockfile (replicate 96 0)"
    by (rule decode_nfslockfile_append) (simp add: sizeof_nfslockfile_def)
  then show "ends_within (Suc 0) orphan_image lslot 0x4000"
    by (simp add: lockfile_at_Some [OF rd(2)] sizeof_nfslockfile_def zero_record_decoded)
qed

lemma cycle_record_decoded:
  "lf_hash_le_next (decode_nfslockfile cycle_record) = 0x4000" "length cycle_record = 96"
  by (simp_all add: cycle_record_def decode_nfslockfile_def field_def le_word_def)

lemma cycle_facts:
  "openfiles_ok cycle_image" "nlist_readable cycle_image"
  "hashsize_at cycle_image = Some 1" "hashtable_at cycle_image = Some 0x3000"
  "uninit cycle_image V_cur = replicate 8 0xAA" "uninit cycle_image V_lockfile = replicate 96 0xAA"
  "head_at cycle_image (replicate 8 0xAA) 0x3000 0 = Some [0, 0x40, 0, 0, 0, 0, 0, 0]"
  "struct_at cycle_image 0x4000 = Some (decode_nfslockfile cycle_record)"
  "lockfile_at cycle_image (replicate 96 0xAA) 0x4000 = Some cycle_record"
  "lockfile_at cycle_image cycle_record 0x4000 = Some cycle_record"
  by (simp_all add: cycle_image_def image_simps cycle_record_decoded)

lemma cycle_follow:
  "follow (Suc 0) cycle_image (replicate 96 0xAA) 0x4000 = Some (cycle_record, 0x4000)"
  "follow (Suc 0) cycle_image cycle_record 0x4000 = Some (cycle_record, 0x4000)"
  by (simp_all add: cycle_facts cycle_record_decoded)

lemma cycle_while_cur:
  "lockfile_bytes s = replicate 96 0xAA \<Longrightarrow> while_cur cycle_image 0x4000 s = None"
  by (rule walk_into_cycle [where j = "Suc 0" and m = 0 and slot = cycle_record and c = "0x4000"])
     (simp_all only: cycle_follow)

section \<open>The claims\<close>

subsection \<open>C1: which structs count as lost\<close>

text \<open>
  Claim C1 says that a struct is classified lost exactly when all five list heads
  (open, lock, delegation, local lock, rollback) are null. The program tests two of
  the five. C1 as amended: a struct is classified lost exactly when \<^verbatim>\<open>lf_open\<close> and
  \<^verbatim>\<open>lf_lock\<close> are both null; \<^verbatim>\<open>lf_deleg\<close>, \<^verbatim>\<open>lf_locallock\<close> and \<^verbatim>\<open>lf_rollback\<close> have
  no influence; and the counter of lost structs goes up by one for exactly these structs.
\<close>

theorem lost_iff_open_and_lock_null:
  "(is_lost lockfile \<longleftrightarrow> lf_open lockfile = 0 \<and> lf_lock lockfile = 0)
   \<and> is_lost (lockfile\<lparr>lf_deleg := d, lf_locallock := l, lf_rollback := r\<rparr>) = is_lost lockfile
   \<and> leaked_lockfiles (count_lockfile lockfile s) =
       leaked_lockfiles s + (if lf_open lockfile = 0 \<and> lf_lock lockfile = 0 then 1 else 0)"
  by (simp add: is_lost_def)

lemma deleg_record_decoded:
  "lf_open (decode_nfslockfile deleg_record) = 0"
  "lf_deleg (decode_nfslockfile deleg_record) = 7"
  "lf_lock (decode_nfslockfile deleg_record) = 0"
  "lf_hash_le_next (decode_nfslockfile deleg_record) = 0"
  by (simp_all add: decode_nfslockfile_def deleg_record_def field_def le_word_def)

lemma deleg_record_length: "length deleg_record = 96"
  by (simp add: deleg_record_def)

lemma deleg_table: "table_image deleg_image [[decode_nfslockfile deleg_record]]"
  by (simp add: table_image_def deleg_image_def image_simps deleg_record_decoded
      deleg_record_length)

text \<open>
  Against C1 as stated: a struct whose delegation list is not empty, and whose open
  and lock lists are, is counted as lost.
\<close>

theorem delegation_only_record_is_lost:
  "lf_deleg (decode_nfslockfile deleg_record) = 7
   \<and> is_lost (decode_nfslockfile deleg_record)
   \<and> map_option out_stdout (main deleg_image)
       = Some (''Total file handles: 1'' @ newline @ ''Lost file handles: 1'' @ newline)"
proof -
  have lost: "is_lost (decode_nfslockfile deleg_record)"
    by (simp add: is_lost_def deleg_record_decoded)
  from main_table_image [OF deleg_table] lost obtain s where
    "main deleg_image = Some (report s)" "total_lockfiles s = 1" "leaked_lockfiles s = 1"
    by auto
  then show ?thesis
    using lost by (simp add: stdout_report show_int_1 deleg_record_decoded)
qed

subsection \<open>C2: termination\<close>

text \<open>
  Claim C2 says that the traversal terminates on every image, a cycle in a chain
  included, because the number of visits is bounded and exceeding the bound is an
  error. The program has no bound, no set of visited addresses and no such error.
  C2 as amended: on every image in which the walk of the chain of every bucket,
  whatever \<^verbatim>\<open>cur\<close> and \<^verbatim>\<open>lockfile\<close> held before, reaches a null \<^verbatim>\<open>le_next\<close>
  pointer or a failing read after finitely many structs, the scan terminates; the
  number of visits is not bounded: the walk of a chain terminates exactly when it
  reaches a null pointer or a failing read after finitely many structs, and a walk that
  comes back to an address it has visited, with \<^verbatim>\<open>lockfile\<close> holding the same bytes as
  at that visit, never ends.
\<close>

theorem scan_terminates_when_chains_end:
  "((\<forall>n t b cslot lslot buf.
        hashsize_at env = Some n \<and> hashtable_at env = Some t
        \<and> 0 \<le> sint b \<and> sint b < sint n \<and> head_at env cslot t b = Some buf
        \<longrightarrow> (\<exists>k. ends_within k env lslot (le_word (take sizeof_ulong buf))))
     \<longrightarrow> (\<exists>out. main env = Some out))
   \<and> ((\<exists>r. while_cur env cur s = Some r) \<longleftrightarrow> (\<exists>k. ends_within k env (lockfile_bytes s) cur))
   \<and> (follow j env' (lockfile_bytes s') cur' = Some (slot, c)
        \<and> follow (Suc m) env' slot c = Some (slot, c)
      \<longrightarrow> while_cur env' cur' s' = None)"
proof (intro conjI impI)
  assume ends: "\<forall>n t b cslot lslot buf.
      hashsize_at env = Some n \<and> hashtable_at env = Some t
      \<and> 0 \<le> sint b \<and> sint b < sint n \<and> head_at env cslot t b = Some buf
      \<longrightarrow> (\<exists>k. ends_within k env lslot (le_word (take sizeof_ulong buf)))"
  show "\<exists>out. main env = Some out"
  proof (cases "openfiles_ok env \<and> nlist_readable env")
    case False
    then show ?thesis
      using main_openfiles_fails [of env] main_nlist_fails [of env] by auto
  next
    case True
    show ?thesis
    proof (cases "hashsize_at env")
      case None
      with True show ?thesis by (simp add: main_hashsize_fails)
    next
      case (Some n)
      show ?thesis
      proof (cases "hashtable_at env")
        case None
        with True Some show ?thesis by (simp add: main_hashtable_fails)
      next
        case t: (Some t)
        have "\<exists>r. for_bucket env n t 0 (init_state env) = Some r"
        proof (rule for_bucket_terminates)
          fix b' cslot lslot buf
          assume "sint (0 :: c_int) \<le> sint b'" and "sint b' < sint n"
            and "head_at env cslot t b' = Some buf"
          with ends Some t show "\<exists>k. ends_within k env lslot (le_word (take sizeof_ulong buf))"
            by simp
        qed
        with True Some t show ?thesis
          by (auto simp: main_scan)
      qed
    qed
  qed
next
  show "(\<exists>r. while_cur env cur s = Some r) \<longleftrightarrow> (\<exists>k. ends_within k env (lockfile_bytes s) cur)"
    by (rule while_cur_terminates_iff)
next
  assume "follow j env' (lockfile_bytes s') cur' = Some (slot, c)
      \<and> follow (Suc m) env' slot c = Some (slot, c)"
  then show "while_cur env' cur' s' = None"
    using walk_into_cycle by blast
qed

text \<open>
  Scenario B of the spec: one bucket with one struct. Whatever the variables hold, the
  head of the bucket is read as \<open>0x4000\<close> and the walk from there ends after one
  struct. In the other image the struct at \<open>0x4000\<close> points to itself: after the
  first read the walk is back at \<open>0x4000\<close> with the struct in \<^verbatim>\<open>lockfile\<close>, and so it
  is after every further read.
\<close>

theorem scan_terminates_when_chains_end_witness:
  "hashsize_at orphan_image = Some 1 \<and> hashtable_at orphan_image = Some 0x3000
   \<and> (\<forall>cslot. map_option (\<lambda>buf. le_word (take sizeof_ulong buf) :: c_ulong)
                 (head_at orphan_image cslot 0x3000 0) = Some 0x4000)
   \<and> (\<forall>lslot. ends_within (Suc 0) orphan_image lslot 0x4000)
   \<and> (\<exists>out. main orphan_image = Some out)
   \<and> follow (Suc 0) cycle_image (lockfile_bytes (init_state cycle_image)) 0x4000
       = Some (cycle_record, 0x4000)
   \<and> follow (Suc 0) cycle_image cycle_record 0x4000 = Some (cycle_record, 0x4000)
   \<and> while_cur cycle_image 0x4000 (init_state cycle_image) = None"
proof -
  note inst = scan_terminates_when_chains_end
    [where env = orphan_image and cur = 0 and s = "init_state orphan_image"
       and j = "Suc 0" and env' = cycle_image and s' = "init_state cycle_image"
       and cur' = "0x4000" and slot = cycle_record and c = "0x4000" and m = 0]
  have first: "follow (Suc 0) cycle_image (lockfile_bytes (init_state cycle_image)) 0x4000
      = Some (cycle_record, 0x4000)"
    by (simp add: init_state_def cycle_facts(6) cycle_follow del: follow.simps)
  have "\<exists>k. ends_within k orphan_image lslot (le_word (take sizeof_ulong buf))"
    if "hashsize_at orphan_image = Some n" and "hashtable_at orphan_image = Some t"
      and "0 \<le> sint b" and "sint b < sint n" and "head_at orphan_image cslot t b = Some buf"
    for n t b cslot lslot buf
  proof -
    from that(1,2) have nt: "n = 1" "t = 0x3000"
      by (simp_all add: orphan_hashsize orphan_hashtable)
    with that(3,4) have "sint b = 0"
      by simp
    then have "b = 0"
      by (simp add: signed_eq_0_iff)
    with that(5) nt orphan_walks_end(1) [of cslot]
    have "(le_word (take sizeof_ulong buf) :: c_ulong) = 0x4000"
      by simp
    with orphan_walks_end(2) [of lslot] show ?thesis
      by metis
  qed
  then have "\<forall>n t b cslot lslot buf.
      hashsize_at orphan_image = Some n \<and> hashtable_at orphan_image = Some t
      \<and> 0 \<le> sint b \<and> sint b < sint n \<and> head_at orphan_image cslot t b = Some buf
      \<longrightarrow> (\<exists>k. ends_within k orphan_image lslot (le_word (take sizeof_ulong buf)))"
    by blast
  with inst have "\<exists>out. main orphan_image = Some out"
    by blast
  moreover from inst first cycle_follow(2)
  have "while_cur cycle_image 0x4000 (init_state cycle_image) = None"
    by blast
  ultimately show ?thesis
    using orphan_walks_end orphan_hashsize orphan_hashtable first cycle_follow(2)
    by blast
qed

text \<open>
  Against C2 as stated: the struct of the only bucket points to itself, and
  \<^verbatim>\<open>main\<close> never returns.
\<close>

theorem cyclic_chain_never_returns:
  "map_option lf_hash_le_next (struct_at cycle_image 0x4000) = Some 0x4000
   \<and> main cycle_image = None"
proof -
  let ?s0 = "enter_bucket (bucket_addr 0x3000 0) [0, 0x40, 0, 0, 0, 0, 0, 0] (init_state cycle_image)"
  have "lockfile_bytes ?s0 = replicate 96 0xAA"
    by (simp add: init_state_def cycle_facts)
  then have "while_cur cycle_image 0x4000 ?s0 = None"
    by (rule cycle_while_cur)
  moreover have "(le_word (take sizeof_ulong [0, 0x40, 0, 0, 0, 0, 0, 0 :: byte]) :: c_ulong) = 0x4000"
    by (simp add: le_word_def sizeof_ulong_def)
  moreover have "head_at cycle_image (cur_bytes (init_state cycle_image)) 0x3000 0
      = Some [0, 0x40, 0, 0, 0, 0, 0, 0]"
    by (simp add: init_state_def cycle_facts)
  ultimately have "for_bucket cycle_image 1 0x3000 0 (init_state cycle_image) = None"
    using for_bucket_step [OF sint_0_1(1), of cycle_image "init_state cycle_image"
        "0x3000" "[0, 0x40, 0, 0, 0, 0, 0, 0]"]
    by simp
  then have "main cycle_image = None"
    using main_scan [OF cycle_facts(1-4)] by simp
  then show ?thesis
    by (simp add: cycle_facts cycle_record_decoded)
qed

subsection \<open>C3: symbols\<close>

text \<open>
  Claim C3 says that a symbol absent from the symbol table ends the scan with a
  message that names it. The program tests only whether \<^verbatim>\<open>kvm_nlist\<close> returned a
  negative value, and \<^verbatim>\<open>kvm_nlist\<close> returns the number of symbols it did not find.
  C3 as amended: if a requested symbol (\<^verbatim>\<open>_nfslockhash\<close> or \<^verbatim>\<open>_nfsrv_lockhashsize\<close>)
  is absent from a symbol table that can be read, \<^verbatim>\<open>kvm_nlist\<close> returns a positive
  number, which is not an error for the program: the scan goes on with the address 0
  for the absent symbol and reads the bucket count. From there the scan is fatal
  exactly when a read fails: if the read of the bucket count fails, or if it succeeds
  and the read of the pointer to the bucket array fails, the run ends at that read with
  exit status 1, nothing on stdout and the message of that read on stderr
  (\<^verbatim>\<open>Failed to read lockfilehash size: \<close> or \<^verbatim>\<open>Failed to read lockfilehash pointer: \<close>
  followed by the text of \<^verbatim>\<open>kvm_geterr\<close>); in every run that returns, the exit status is
  1 exactly when some read failed, with nothing on stdout and the diagnostic of the
  last call on stderr, and otherwise it is 0 and stdout holds the two lines of the
  report.
\<close>

theorem absent_symbol_scan_goes_on:
  assumes "openfiles_ok env" and "nlist_readable env"
    and "symtab env SYMBOL_LOCKHASH = None \<or> symtab env SYMBOL_LOCKHASH_SIZE = None"
  shows "0 < fst (kvm_nlist env [SYMBOL_LOCKHASH, SYMBOL_LOCKHASH_SIZE])
     \<and> (symtab env SYMBOL_LOCKHASH_SIZE = None \<longrightarrow> lockhashsize_addr env = 0)
     \<and> (symtab env SYMBOL_LOCKHASH = None \<longrightarrow> lockhash_addr env = 0)
     \<and> (mem_read env (lockhashsize_addr env) sizeof_int = None \<longrightarrow>
          main env =
            Some \<lparr> out_stdout = [],
                   out_stderr = ''Failed to read lockfilehash size: ''
                                  @ kvm_geterr env (KvmRead (lockhashsize_addr env) sizeof_int),
                   exit_code = 1,
                   kvm_calls = [KvmOpenfiles, KvmNlist,
                                KvmRead (lockhashsize_addr env) sizeof_int] \<rparr>)
     \<and> (mem_read env (lockhashsize_addr env) sizeof_int \<noteq> None
        \<and> mem_read env (lockhash_addr env) sizeof_ulong = None \<longrightarrow>
          main env =
            Some \<lparr> out_stdout = [],
                   out_stderr = ''Failed to read lockfilehash pointer: ''
                                  @ kvm_geterr env (KvmRead (lockhash_addr env) sizeof_ulong),
                   exit_code = 1,
                   kvm_calls = [KvmOpenfiles, KvmNlist,
                                KvmRead (lockhashsize_addr env) sizeof_int,
                                KvmRead (lockhash_addr env) sizeof_ulong] \<rparr>)
     \<and> (\<forall>out. main env = Some out \<longrightarrow>
          take 3 (kvm_calls out)
            = [KvmOpenfiles, KvmNlist, KvmRead (lockhashsize_addr env) sizeof_int]
          \<and> (if (\<exists>kva nbytes. KvmRead kva nbytes \<in> set (kvm_calls out)
                                \<and> mem_read env kva nbytes = None)
             then exit_code out = 1 \<and> out_stdout out = []
                  \<and> diagnostic env (last (kvm_calls out)) (out_stderr out)
             else exit_code out = 0 \<and> out_stderr out = []
                  \<and> (\<exists>s. out_stdout out = out_stdout (report s))))"
proof (intro conjI impI allI)
  show "0 < fst (kvm_nlist env [SYMBOL_LOCKHASH, SYMBOL_LOCKHASH_SIZE])"
    using assms(2,3) by (auto simp: kvm_nlist_def)
  show "lockhashsize_addr env = 0" if "symtab env SYMBOL_LOCKHASH_SIZE = None"
    using assms(2) that by (simp add: lockhashsize_addr_def kvm_nlist_def)
  show "lockhash_addr env = 0" if "symtab env SYMBOL_LOCKHASH = None"
    using assms(2) that by (simp add: lockhash_addr_def kvm_nlist_def)
next
  assume "mem_read env (lockhashsize_addr env) sizeof_int = None"
  then have "hashsize_at env = None"
    by (simp only: hashsize_at_None)
  then show "main env =
      Some \<lparr> out_stdout = [],
             out_stderr = ''Failed to read lockfilehash size: ''
                            @ kvm_geterr env (KvmRead (lockhashsize_addr env) sizeof_int),
             exit_code = 1,
             kvm_calls = [KvmOpenfiles, KvmNlist, KvmRead (lockhashsize_addr env) sizeof_int] \<rparr>"
    using main_hashsize_fails [OF assms(1,2)] by (simp add: failure_def)
next
  assume a: "mem_read env (lockhashsize_addr env) sizeof_int \<noteq> None
      \<and> mem_read env (lockhash_addr env) sizeof_ulong = None"
  then obtain n where "hashsize_at env = Some n"
    using hashsize_at_None [of env] by auto
  moreover from a have "hashtable_at env = None"
    by (simp only: hashtable_at_None)
  ultimately show "main env =
      Some \<lparr> out_stdout = [],
             out_stderr = ''Failed to read lockfilehash pointer: ''
                            @ kvm_geterr env (KvmRead (lockhash_addr env) sizeof_ulong),
             exit_code = 1,
             kvm_calls = [KvmOpenfiles, KvmNlist, KvmRead (lockhashsize_addr env) sizeof_int,
                          KvmRead (lockhash_addr env) sizeof_ulong] \<rparr>"
    using main_hashtable_fails [OF assms(1,2)] by (simp add: failure_def)
next
  fix out
  assume out: "main env = Some out"
  show "take 3 (kvm_calls out)
      = [KvmOpenfiles, KvmNlist, KvmRead (lockhashsize_addr env) sizeof_int]"
    using out assms(1,2) by (rule main_first_calls)
  show "if (\<exists>kva nbytes. KvmRead kva nbytes \<in> set (kvm_calls out) \<and> mem_read env kva nbytes = None)
        then exit_code out = 1 \<and> out_stdout out = []
             \<and> diagnostic env (last (kvm_calls out)) (out_stderr out)
        else exit_code out = 0 \<and> out_stderr out = []
             \<and> (\<exists>s. out_stdout out = out_stdout (report s))"
    using main_outcome [OF out] failed_read_iff [OF out assms(1,2)] by auto
qed

lemma missing_size_unmapped_facts:
  "openfiles_ok missing_size_unmapped_image" "nlist_readable missing_size_unmapped_image"
  "symtab missing_size_unmapped_image SYMBOL_LOCKHASH_SIZE = None"
  "fst (kvm_nlist missing_size_unmapped_image [SYMBOL_LOCKHASH, SYMBOL_LOCKHASH_SIZE]) = 1"
  "lockhashsize_addr missing_size_unmapped_image = 0"
  "mem_read missing_size_unmapped_image 0 4 = None"
  "kvm_geterr missing_size_unmapped_image c = ''Bad address''"
  by (simp_all add: missing_size_unmapped_image_def image_simps)

text \<open>
  Scenario D of the spec: \<^verbatim>\<open>_nfsrv_lockhashsize\<close> is not in the symbol table. In an
  image where address 0 cannot be read, as in a running kernel, the run ends at the
  read of the bucket count, with the message of that read.
\<close>

theorem absent_symbol_scan_goes_on_witness:
  "openfiles_ok missing_size_unmapped_image \<and> nlist_readable missing_size_unmapped_image
   \<and> symtab missing_size_unmapped_image SYMBOL_LOCKHASH_SIZE = None
   \<and> fst (kvm_nlist missing_size_unmapped_image [SYMBOL_LOCKHASH, SYMBOL_LOCKHASH_SIZE]) = 1
   \<and> lockhashsize_addr missing_size_unmapped_image = 0
   \<and> mem_read missing_size_unmapped_image 0 4 = None
   \<and> main missing_size_unmapped_image =
       Some \<lparr> out_stdout = [], out_stderr = ''Failed to read lockfilehash size: Bad address'',
              exit_code = 1, kvm_calls = [KvmOpenfiles, KvmNlist, KvmRead 0 4] \<rparr>"
proof -
  have absent: "symtab missing_size_unmapped_image SYMBOL_LOCKHASH = None
      \<or> symtab missing_size_unmapped_image SYMBOL_LOCKHASH_SIZE = None"
    by (simp add: missing_size_unmapped_facts)
  from absent_symbol_scan_goes_on [OF missing_size_unmapped_facts(1,2) absent]
  have "main missing_size_unmapped_image =
       Some \<lparr> out_stdout = [], out_stderr = ''Failed to read lockfilehash size: Bad address'',
              exit_code = 1, kvm_calls = [KvmOpenfiles, KvmNlist, KvmRead 0 4] \<rparr>"
    by (simp add: missing_size_unmapped_facts sizeof_int_def)
  then show ?thesis
    by (simp add: missing_size_unmapped_facts)
qed

lemma missing_size_facts:
  "openfiles_ok missing_size_image" "nlist_readable missing_size_image"
  "symtab missing_size_image SYMBOL_LOCKHASH_SIZE = None"
  "fst (kvm_nlist missing_size_image [SYMBOL_LOCKHASH, SYMBOL_LOCKHASH_SIZE]) = 1"
  "lockhash_addr missing_size_image = 0x1000" "lockhashsize_addr missing_size_image = 0"
  "hashsize_at missing_size_image = Some 0" "hashtable_at missing_size_image = Some 0x3000"
  by (simp_all add: missing_size_image_def image_simps)

text \<open>
  Against C3 as stated: \<^verbatim>\<open>_nfsrv_lockhashsize\<close> is not in the symbol table,
  \<^verbatim>\<open>kvm_nlist\<close> returns 1, and the scan goes on with the value 0 for the symbol. Where
  address 0 can be read, the scan prints its two lines and exits with 0.
\<close>

theorem missing_symbol_is_not_detected:
  "symtab missing_size_image SYMBOL_LOCKHASH_SIZE = None
   \<and> fst (kvm_nlist missing_size_image [SYMBOL_LOCKHASH, SYMBOL_LOCKHASH_SIZE]) = 1
   \<and> main missing_size_image =
       Some \<lparr> out_stdout = ''Total file handles: 0'' @ newline @ ''Lost file handles: 0'' @ newline,
              out_stderr = [], exit_code = 0,
              kvm_calls = [KvmOpenfiles, KvmNlist, KvmRead 0 4, KvmRead 0x1000 8] \<rparr>"
  using main_no_bucket [of missing_size_image 0 "0x3000"]
  by (simp add: missing_size_facts sizeof_int_def sizeof_ulong_def)

subsection \<open>C4: the total\<close>

text \<open>
  Claim C4 says that the scan of a table holding \<open>R\<close> structs reports the total
  \<open>R\<close>, for every \<open>R\<close>. The counter is an \<^verbatim>\<open>int\<close> printed with \<^verbatim>\<open>%d\<close>. C4 as
  amended: for every table with \<open>B\<close> buckets holding \<open>R \<le> 2 ^ 31 - 1\<close> structs in
  total, however they are spread over the buckets and ordered in the chains, the heads
  of the buckets and the structs being read completely, the scan succeeds and reports
  a total of exactly \<open>R\<close> (and as lost the number of structs with null \<^verbatim>\<open>lf_open\<close>
  and \<^verbatim>\<open>lf_lock\<close>).
\<close>

theorem total_is_number_of_records:
  assumes "table_image env cs" and "length (concat cs) < 2147483648"
  shows "map_option exit_code (main env) = Some 0
     \<and> map_option out_stdout (main env) =
         Some (''Total file handles: '' @ show_nat (length (concat cs)) @ newline
               @ ''Lost file handles: '' @ show_nat (length (filter is_lost (concat cs)))
               @ newline)"
proof -
  from main_table_image_stdout [OF assms] obtain s where
    "main env = Some (report s)" "sint (total_lockfiles s) = int (length (concat cs))"
    "sint (leaked_lockfiles s) = int (length (filter is_lost (concat cs)))"
    by blast
  then show ?thesis
    by (simp add: stdout_report show_int_nat) (simp add: report_def)
qed

text \<open>Two buckets, two structs in the first, one of them lost.\<close>

theorem total_is_number_of_records_witness:
  "table_image two_bucket_image
     [[decode_nfslockfile live_record, decode_nfslockfile (replicate 96 0)], []]
   \<and> map_option exit_code (main two_bucket_image) = Some 0
   \<and> map_option out_stdout (main two_bucket_image) =
       Some (''Total file handles: 2'' @ newline @ ''Lost file handles: 1'' @ newline)"
proof -
  let ?cs = "[[decode_nfslockfile live_record, decode_nfslockfile (replicate 96 0)], []]"
  have small: "length (concat ?cs) < 2147483648"
    by simp
  have total: "show_nat (length (concat ?cs)) = ''2''"
    by (simp add: show_nat.simps)
  have lost: "show_nat (length (filter is_lost (concat ?cs))) = ''1''"
    by (simp add: two_bucket_lost show_nat.simps)
  from total_is_number_of_records [OF two_bucket_table small, unfolded total lost]
  show ?thesis
    using two_bucket_table by simp
qed

text \<open>
  Against C4 as stated: a table with \<open>2 ^ 31\<close> structs. The scan succeeds and the
  total it prints is not the number of structs.
\<close>

theorem int_counter_cannot_hold_the_total:
  "table_image big_image [big_chain] \<and> length (concat [big_chain]) = 2147483648
   \<and> map_option exit_code (main big_image) = Some 0
   \<and> map_option out_stdout (main big_image) =
       Some (''Total file handles: -2147483648'' @ newline
             @ ''Lost file handles: 2147483647'' @ newline)"
proof -
  from big_image_run obtain s where
    s: "main big_image = Some (report s)"
      "total_lockfiles s = 0x80000000" "leaked_lockfiles s = 0x7FFFFFFF"
    by blast
  have "show_int (sint (0x80000000 :: c_int)) = ''-2147483648''"
    "show_int (sint (0x7FFFFFFF :: c_int)) = ''2147483647''"
    by (simp_all add: show_int_def show_nat.simps)
  with s have "out_stdout (report s) =
      ''Total file handles: -2147483648'' @ newline @ ''Lost file handles: 2147483647'' @ newline"
    by (simp add: stdout_report)
  moreover have "exit_code (report s) = 0"
    by (simp add: report_def)
  ultimately show ?thesis
    using s(1) by (simp add: big_table big_chain_counts)
qed

subsection \<open>C5: failures are fatal and print nothing\<close>

text \<open>
  Claim C5 lists five kinds of error and says that each ends the process with one
  diagnostic on stderr, a non-zero exit status and nothing on stdout. The program
  detects the failure of a libkvm call (\<^verbatim>\<open>NULL\<close> from \<^verbatim>\<open>kvm_openfiles\<close>, a negative
  value from \<^verbatim>\<open>kvm_nlist\<close> or \<^verbatim>\<open>kvm_read\<close>) and nothing else. C5 as amended: in every
  run that returns, if a libkvm call failed, at whatever point of the scan, then the
  exit status is 1, nothing was written to stdout, and stderr holds one diagnostic,
  that of the last call made; otherwise the exit status is 0, stderr is empty
  and stdout holds the two lines of the report.
\<close>

theorem detected_failures_are_fatal:
  assumes "main env = Some out"
  shows "if (\<exists>c\<in>set (kvm_calls out). call_fails env c)
         then exit_code out = 1 \<and> out_stdout out = []
              \<and> diagnostic env (last (kvm_calls out)) (out_stderr out)
         else exit_code out = 0 \<and> out_stderr out = []
              \<and> (\<exists>s. out_stdout out = out_stdout (report s))"
  using main_outcome [OF assms] some_call_fails_iff [OF assms] by auto

text \<open>
  A failure in the middle of a chain: the first struct is read and counted, the second
  one cannot be read.
\<close>

theorem detected_failures_are_fatal_witness:
  "main broken_chain_image =
     Some \<lparr> out_stdout = [], out_stderr = ''Failed to read lockfile: Bad address'',
            exit_code = 1,
            kvm_calls = [KvmOpenfiles, KvmNlist, KvmRead 0x2000 4, KvmRead 0x1000 8,
                         KvmRead 0x3000 8, KvmRead 0x4000 96, KvmRead 0x5000 96] \<rparr>
   \<and> call_fails broken_chain_image (KvmRead 0x5000 96)
   \<and> diagnostic broken_chain_image (KvmRead 0x5000 96) ''Failed to read lockfile: Bad address''"
  using detected_failures_are_fatal [OF broken_chain_run] broken_chain_run
  by (simp add: broken_chain_facts)

text \<open>
  Against C5 as stated: the read of the bucket count transfers no byte, which the
  spec counts as a read fault. The program goes on with what its variable held,
  prints the two lines and exits with 0.
\<close>

theorem short_count_read_is_not_fatal:
  "fst (kvm_read short_count_image 0x2000 (uninit short_count_image V_lockfilehashsize) 4) = 0
   \<and> main short_count_image =
       Some \<lparr> out_stdout = ''Total file handles: 0'' @ newline @ ''Lost file handles: 0'' @ newline,
              out_stderr = [], exit_code = 0,
              kvm_calls = [KvmOpenfiles, KvmNlist, KvmRead 0x2000 4, KvmRead 0x1000 8] \<rparr>"
  using short_count_run by (simp add: short_count_facts)

subsection \<open>C6: the bucket count\<close>

text \<open>
  Claim C6 says that the bucket count is read once and that a count outside
  \<open>0 \<dots> MAX_SANE_BUCKETS\<close> aborts the scan. The program has no such bound and
  makes no test of the count. C6 as amended: the bucket count is read exactly once,
  at the start of the scan (it is the first read, after the image is opened and the
  symbols are looked up); its value is never a reason to abort, the scan ends with
  status 1 only when a libkvm call fails; with a negative count the loop over the
  buckets does not run, and the scan prints both totals as 0 and exits with 0 without
  reading any bucket.
\<close>

theorem bucket_count_is_read_once_and_not_checked:
  assumes "main env = Some out" and "openfiles_ok env" and "nlist_readable env"
  shows "filter is_size_read (kvm_calls out) = [KvmRead (lockhashsize_addr env) sizeof_int]
     \<and> take 3 (kvm_calls out) =
         [KvmOpenfiles, KvmNlist, KvmRead (lockhashsize_addr env) sizeof_int]
     \<and> (exit_code out = 1 \<longrightarrow> call_fails env (last (kvm_calls out)))
     \<and> (\<forall>n. hashsize_at env = Some n \<and> sint n < 0 \<and> hashtable_at env \<noteq> None \<longrightarrow>
          exit_code out = 0
          \<and> out_stdout out = ''Total file handles: 0'' @ newline @ ''Lost file handles: 0'' @ newline
          \<and> kvm_calls out = [KvmOpenfiles, KvmNlist, KvmRead (lockhashsize_addr env) sizeof_int,
                             KvmRead (lockhash_addr env) sizeof_ulong])"
proof (intro conjI allI impI)
  show "filter is_size_read (kvm_calls out) = [KvmRead (lockhashsize_addr env) sizeof_int]"
    using main_size_reads [OF assms(1)] assms(2,3) by simp
  show "take 3 (kvm_calls out) =
      [KvmOpenfiles, KvmNlist, KvmRead (lockhashsize_addr env) sizeof_int]"
    using assms by (rule main_first_calls)
  show "call_fails env (last (kvm_calls out))" if "exit_code out = 1"
    using main_outcome [OF assms(1)] that by (auto split: if_splits)
  fix n
  assume n: "hashsize_at env = Some n \<and> sint n < 0 \<and> hashtable_at env \<noteq> None"
  then obtain t where "hashtable_at env = Some t"
    by auto
  with n assms have "out =
     \<lparr> out_stdout = ''Total file handles: 0'' @ newline @ ''Lost file handles: 0'' @ newline,
       out_stderr = [], exit_code = 0,
       kvm_calls = [KvmOpenfiles, KvmNlist, KvmRead (lockhashsize_addr env) sizeof_int,
                    KvmRead (lockhash_addr env) sizeof_ulong] \<rparr>"
    using main_no_bucket [of env n t] by simp
  then show "exit_code out = 0"
    and "out_stdout out = ''Total file handles: 0'' @ newline @ ''Lost file handles: 0'' @ newline"
    and "kvm_calls out = [KvmOpenfiles, KvmNlist, KvmRead (lockhashsize_addr env) sizeof_int,
                          KvmRead (lockhash_addr env) sizeof_ulong]"
    by simp_all
qed

text \<open>An image whose bucket count is \<^verbatim>\<open>INT_MIN\<close>.\<close>

theorem bucket_count_is_read_once_and_not_checked_witness:
  "main int_min_count_image =
     Some \<lparr> out_stdout = ''Total file handles: 0'' @ newline @ ''Lost file handles: 0'' @ newline,
            out_stderr = [], exit_code = 0,
            kvm_calls = [KvmOpenfiles, KvmNlist, KvmRead 0x2000 4, KvmRead 0x1000 8] \<rparr>
   \<and> openfiles_ok int_min_count_image \<and> nlist_readable int_min_count_image
   \<and> hashsize_at int_min_count_image = Some 0x80000000
   \<and> sint (0x80000000 :: c_int) = - 2147483648
   \<and> filter is_size_read [KvmOpenfiles, KvmNlist, KvmRead 0x2000 4, KvmRead 0x1000 8]
       = [KvmRead 0x2000 4]"
proof -
  have int_min: "sint (0x80000000 :: c_int) = - 2147483648"
    by simp
  have "filter is_size_read [KvmOpenfiles, KvmNlist, KvmRead 0x2000 4, KvmRead 0x1000 8]
      = [KvmRead 0x2000 4]"
    using bucket_count_is_read_once_and_not_checked
      [OF int_min_count_run int_min_count_facts(1,2)]
    by (simp add: int_min_count_facts sizeof_int_def sizeof_ulong_def)
  with int_min show ?thesis
    by (simp add: int_min_count_run int_min_count_facts)
qed

text \<open>Against C6 as stated: a bucket count of -1 is accepted, and the scan succeeds.\<close>

theorem negative_bucket_count_is_accepted:
  "hashsize_at negative_count_image = Some (- 1)
   \<and> sint (- 1 :: c_int) = - 1
   \<and> main negative_count_image =
       Some \<lparr> out_stdout = ''Total file handles: 0'' @ newline @ ''Lost file handles: 0'' @ newline,
              out_stderr = [], exit_code = 0,
              kvm_calls = [KvmOpenfiles, KvmNlist, KvmRead 0x2000 4, KvmRead 0x1000 8] \<rparr>"
  using negative_count_run by (simp add: negative_count_facts)

subsection \<open>C7: short reads\<close>

text \<open>
  Claim C7 says that a read that returns fewer bytes than requested aborts the scan.
  The program tests \<^verbatim>\<open>rc < 0\<close> after each read and never compares \<^verbatim>\<open>rc\<close> with the
  size. C7 as amended: once the image is open and its symbol table read, the scan is
  aborted, with exit status 1 and nothing on stdout, exactly when some \<^verbatim>\<open>kvm_read\<close>
  fails (returns a negative value); a read that transfers fewer bytes than requested
  does not abort the scan, which goes on with a variable that holds the bytes
  transferred followed by the bytes that it held before at the remaining positions:
  this is so for the bucket count and the pointer to the bucket array (whose variables
  hold indeterminate bytes before the read), for the head of a bucket (read into
  \<^verbatim>\<open>cur\<close>) and for a struct (read into \<^verbatim>\<open>lockfile\<close>, which holds the struct read
  before).
\<close>

theorem only_failed_reads_abort:
  assumes "main env = Some out" and "openfiles_ok env" and "nlist_readable env"
  shows "(if (\<exists>kva nbytes. KvmRead kva nbytes \<in> set (kvm_calls out) \<and> mem_read env kva nbytes = None)
          then exit_code out = 1 \<and> out_stdout out = []
          else exit_code out = 0)
     \<and> (\<forall>bs. mem_read env (lockhashsize_addr env) sizeof_int = Some bs \<and> length bs < sizeof_int \<longrightarrow>
          hashsize_at env
            = Some (le_word (take sizeof_int (bs @ drop (length bs) (uninit env V_lockfilehashsize)))))
     \<and> (\<forall>bs. mem_read env (lockhash_addr env) sizeof_ulong = Some bs \<and> length bs < sizeof_ulong \<longrightarrow>
          hashtable_at env
            = Some (le_word (take sizeof_ulong (bs @ drop (length bs) (uninit env V_lockfilehashtable)))))
     \<and> (\<forall>n t b s bs.
          sint b < sint n \<and> mem_read env (bucket_addr t b) sizeof_ulong = Some bs
          \<and> length bs < sizeof_ulong \<longrightarrow>
          for_bucket env n t b s =
            Option.bind
              (while_cur env (le_word (take sizeof_ulong (bs @ drop (length bs) (cur_bytes s))))
                 (enter_bucket (bucket_addr t b) (bs @ drop (length bs) (cur_bytes s)) s))
              (\<lambda>r. case r of
                     Failed msg s' \<Rightarrow> Some (Failed msg s')
                   | Finished s' \<Rightarrow> for_bucket env n t (b + 1) s'))
     \<and> (\<forall>cur s bs.
          cur \<noteq> 0 \<and> mem_read env cur sizeof_nfslockfile = Some bs
          \<and> length bs < sizeof_nfslockfile \<longrightarrow>
          while_cur env cur s =
            while_cur env
              (lf_hash_le_next (decode_nfslockfile (bs @ drop (length bs) (lockfile_bytes s))))
              (visit cur (bs @ drop (length bs) (lockfile_bytes s)) s))"
proof (intro conjI allI impI)
  show "if (\<exists>kva nbytes. KvmRead kva nbytes \<in> set (kvm_calls out) \<and> mem_read env kva nbytes = None)
        then exit_code out = 1 \<and> out_stdout out = []
        else exit_code out = 0"
    using main_outcome [OF assms(1)] failed_read_iff [OF assms] by auto
next
  fix bs
  assume "mem_read env (lockhashsize_addr env) sizeof_int = Some bs \<and> length bs < sizeof_int"
  then show "hashsize_at env
      = Some (le_word (take sizeof_int (bs @ drop (length bs) (uninit env V_lockfilehashsize))))"
    by (simp add: hashsize_at_def kvm_read_Some)
next
  fix bs
  assume "mem_read env (lockhash_addr env) sizeof_ulong = Some bs \<and> length bs < sizeof_ulong"
  then show "hashtable_at env
      = Some (le_word (take sizeof_ulong (bs @ drop (length bs) (uninit env V_lockfilehashtable))))"
    by (simp add: hashtable_at_def kvm_read_Some)
next
  fix n b :: c_int and t :: c_ulong and s :: scan_state and bs
  assume a: "sint b < sint n \<and> mem_read env (bucket_addr t b) sizeof_ulong = Some bs
      \<and> length bs < sizeof_ulong"
  then have "head_at env (cur_bytes s) t b = Some (bs @ drop (length bs) (cur_bytes s))"
    using head_at_Some [of env t b bs "cur_bytes s"] by simp
  with a show "for_bucket env n t b s =
      Option.bind
        (while_cur env (le_word (take sizeof_ulong (bs @ drop (length bs) (cur_bytes s))))
           (enter_bucket (bucket_addr t b) (bs @ drop (length bs) (cur_bytes s)) s))
        (\<lambda>r. case r of
               Failed msg s' \<Rightarrow> Some (Failed msg s')
             | Finished s' \<Rightarrow> for_bucket env n t (b + 1) s')"
    using for_bucket_step [of b n env s t "bs @ drop (length bs) (cur_bytes s)"] by blast
next
  fix cur :: c_ulong and s :: scan_state and bs
  assume a: "cur \<noteq> 0 \<and> mem_read env cur sizeof_nfslockfile = Some bs
      \<and> length bs < sizeof_nfslockfile"
  then have "lockfile_at env (lockfile_bytes s) cur = Some (bs @ drop (length bs) (lockfile_bytes s))"
    using lockfile_at_Some [of env cur bs "lockfile_bytes s"] by simp
  with a show "while_cur env cur s =
      while_cur env
        (lf_hash_le_next (decode_nfslockfile (bs @ drop (length bs) (lockfile_bytes s))))
        (visit cur (bs @ drop (length bs) (lockfile_bytes s)) s)"
    using while_cur_step [of cur env s "bs @ drop (length bs) (lockfile_bytes s)"] by blast
qed

text \<open>
  The image with three buckets. The read of the struct at \<open>0x5000\<close> transfers eight
  bytes and does not end the scan; the read of the head of the third bucket fails and
  ends it. At the read of the struct at \<open>0x5000\<close>, whatever \<^verbatim>\<open>lockfile\<close> holds, the
  walk goes on with the eight bytes transferred followed by what \<^verbatim>\<open>lockfile\<close> held
  from its ninth byte on.
\<close>

theorem only_failed_reads_abort_witness:
  "main short_then_fault_image =
     Some \<lparr> out_stdout = [], out_stderr = ''Failed to read bucket pointer: Bad address'',
            exit_code = 1,
            kvm_calls = [KvmOpenfiles, KvmNlist, KvmRead 0x2000 4, KvmRead 0x1000 8,
                         KvmRead 0x3000 8, KvmRead 0x4000 96, KvmRead 0x3008 8, KvmRead 0x5000 96,
                         KvmRead 0x3010 8] \<rparr>
   \<and> openfiles_ok short_then_fault_image \<and> nlist_readable short_then_fault_image
   \<and> mem_read short_then_fault_image 0x3010 8 = None
   \<and> mem_read short_then_fault_image 0x5000 96 = Some [0, 0, 0, 0, 0, 0, 0, 0]
   \<and> (\<forall>s. while_cur short_then_fault_image 0x5000 s =
            while_cur short_then_fault_image
              (lf_hash_le_next (decode_nfslockfile ([0, 0, 0, 0, 0, 0, 0, 0] @ drop 8 (lockfile_bytes s))))
              (visit 0x5000 ([0, 0, 0, 0, 0, 0, 0, 0] @ drop 8 (lockfile_bytes s)) s))"
proof -
  have env: "short_then_fault_image = short_second_image \<or> short_then_fault_image = short_then_fault_image"
    by simp
  note r = short_second_reads [OF env]
  note inst = only_failed_reads_abort [OF short_then_fault_run r(1,2)]
  have short: "(0x5000 :: c_ulong) \<noteq> 0
      \<and> mem_read short_then_fault_image 0x5000 sizeof_nfslockfile = Some [0, 0, 0, 0, 0, 0, 0, 0]
      \<and> length [0, 0, 0, 0, 0, 0, 0, 0 :: byte] < sizeof_nfslockfile"
    by (simp add: r sizeof_nfslockfile_def)
  have len: "length [0, 0, 0, 0, 0, 0, 0, 0 :: byte] = 8"
    by simp
  have "while_cur short_then_fault_image 0x5000 s =
      while_cur short_then_fault_image
        (lf_hash_le_next (decode_nfslockfile ([0, 0, 0, 0, 0, 0, 0, 0] @ drop 8 (lockfile_bytes s))))
        (visit 0x5000 ([0, 0, 0, 0, 0, 0, 0, 0] @ drop 8 (lockfile_bytes s)) s)" for s
  proof -
    from inst have "\<forall>cur s bs.
          cur \<noteq> 0 \<and> mem_read short_then_fault_image cur sizeof_nfslockfile = Some bs
          \<and> length bs < sizeof_nfslockfile \<longrightarrow>
          while_cur short_then_fault_image cur s =
            while_cur short_then_fault_image
              (lf_hash_le_next (decode_nfslockfile (bs @ drop (length bs) (lockfile_bytes s))))
              (visit cur (bs @ drop (length bs) (lockfile_bytes s)) s)"
      by blast
    from this [rule_format, OF short, of s] show ?thesis
      by (simp only: len)
  qed
  then have step: "\<forall>s. while_cur short_then_fault_image 0x5000 s =
      while_cur short_then_fault_image
        (lf_hash_le_next (decode_nfslockfile ([0, 0, 0, 0, 0, 0, 0, 0] @ drop 8 (lockfile_bytes s))))
        (visit 0x5000 ([0, 0, 0, 0, 0, 0, 0, 0] @ drop 8 (lockfile_bytes s)) s)"
    by blast
  note parts = short_then_fault_run r(1,2,12,11) step
  show ?thesis
    by (intro conjI) (rule parts)+
qed

text \<open>
  Against C7 as stated: the image with two buckets. The read of the struct at
  \<open>0x5000\<close> transfers eight of its 96 bytes, a null \<^verbatim>\<open>lf_open\<close>, over the struct
  read at \<open>0x4000\<close>, whose \<^verbatim>\<open>lf_open\<close> is 1 and whose other fields are null. The scan
  counts the struct as lost, with the \<^verbatim>\<open>lf_open\<close> transferred and the \<^verbatim>\<open>lf_lock\<close>
  and \<^verbatim>\<open>le_next\<close> of the struct read before, and exits with 0.
\<close>

theorem short_read_does_not_abort:
  "mem_read short_second_image 0x5000 96 = Some [0, 0, 0, 0, 0, 0, 0, 0]
   \<and> fst (kvm_read short_second_image 0x5000 open_record 96) = 8
   \<and> lf_open (decode_nfslockfile open_record) = 1
   \<and> lf_open (decode_nfslockfile (snd (kvm_read short_second_image 0x5000 open_record 96))) = 0
   \<and> uninit short_second_image V_lockfile = replicate 96 0xAA
   \<and> main short_second_image =
       Some \<lparr> out_stdout = ''Total file handles: 2'' @ newline @ ''Lost file handles: 1'' @ newline,
              out_stderr = [], exit_code = 0,
              kvm_calls = [KvmOpenfiles, KvmNlist, KvmRead 0x2000 4, KvmRead 0x1000 8,
                           KvmRead 0x3000 8, KvmRead 0x4000 96, KvmRead 0x3008 8,
                           KvmRead 0x5000 96] \<rparr>"
proof -
  have env: "short_second_image = short_second_image \<or> short_second_image = short_then_fault_image"
    by simp
  note r = short_second_reads [OF env]
  have rd: "kvm_read short_second_image 0x5000 open_record 96 = (8, replicate 96 0)"
    using kvm_read_Some [OF r(11), of open_record]
    by (simp add: open_record_def replicate_96_zeros)
  have fst_rd: "fst (kvm_read short_second_image 0x5000 open_record 96) = 8"
    by (simp add: rd)
  have snd_rd: "lf_open (decode_nfslockfile (snd (kvm_read short_second_image 0x5000 open_record 96))) = 0"
    by (simp add: rd decode_nfslockfile_def field_def le_word_def)
  note parts = r(11) fst_rd open_record_decoded(1) snd_rd r(7) short_second_run
  show ?thesis
    by (intro conjI) (rule parts)+
qed

subsection \<open>C8: a table with no bucket\<close>

text \<open>
  Claim C8 says that a bucket count of 0 makes the scan succeed with both totals 0.
  Between the read of the count and the loop the program reads the pointer to the
  bucket array at the address of \<^verbatim>\<open>_nfslockhash\<close>, and fails when that read fails.
  C8 as amended: if the bucket count read from the image is 0 and the read of the
  pointer to the bucket array succeeds, the scan prints \<^verbatim>\<open>Total file handles: 0\<close> and
  \<^verbatim>\<open>Lost file handles: 0\<close>, exits with 0, and has made two reads only, of the count
  and of the pointer: no bucket head is read.
\<close>

theorem empty_table_scan:
  assumes "openfiles_ok env" and "nlist_readable env"
    and "hashsize_at env = Some 0" and "hashtable_at env = Some t"
  shows "main env =
     Some \<lparr> out_stdout = ''Total file handles: 0'' @ newline @ ''Lost file handles: 0'' @ newline,
            out_stderr = [], exit_code = 0,
            kvm_calls = [KvmOpenfiles, KvmNlist, KvmRead (lockhashsize_addr env) sizeof_int,
                         KvmRead (lockhash_addr env) sizeof_ulong] \<rparr>"
  using main_no_bucket [OF assms] by simp

lemma empty_image_facts:
  "openfiles_ok empty_image" "nlist_readable empty_image"
  "lockhash_addr empty_image = 0x1000" "lockhashsize_addr empty_image = 0x2000"
  "hashsize_at empty_image = Some 0" "hashtable_at empty_image = Some 0x3000"
  "mem_read empty_image 0x3000 8 = None"
  by (simp_all add: empty_image_def image_simps)

text \<open>Scenario A of the spec: the count is 0 and the bucket array is not mapped.\<close>

theorem empty_table_scan_witness:
  "openfiles_ok empty_image \<and> nlist_readable empty_image
   \<and> hashsize_at empty_image = Some 0 \<and> hashtable_at empty_image = Some 0x3000
   \<and> main empty_image =
       Some \<lparr> out_stdout = ''Total file handles: 0'' @ newline @ ''Lost file handles: 0'' @ newline,
              out_stderr = [], exit_code = 0,
              kvm_calls = [KvmOpenfiles, KvmNlist, KvmRead 0x2000 4, KvmRead 0x1000 8] \<rparr>"
  using empty_table_scan [of empty_image "0x3000"]
  by (simp add: empty_image_facts sizeof_int_def sizeof_ulong_def)

text \<open>
  Against C8 as stated: the count is 0, the pointer to the bucket array cannot be
  read, and the scan fails.
\<close>

theorem zero_count_unreadable_table_pointer:
  "hashsize_at no_table_image = Some 0
   \<and> main no_table_image =
       Some \<lparr> out_stdout = [], out_stderr = ''Failed to read lockfilehash pointer: Bad address'',
              exit_code = 1,
              kvm_calls = [KvmOpenfiles, KvmNlist, KvmRead 0x2000 4, KvmRead 0x1000 8] \<rparr>"
proof -
  have "openfiles_ok no_table_image" "nlist_readable no_table_image"
    "lockhash_addr no_table_image = 0x1000" "lockhashsize_addr no_table_image = 0x2000"
    "hashsize_at no_table_image = Some 0" "hashtable_at no_table_image = None"
    "kvm_geterr no_table_image (KvmRead 0x1000 8) = ''Bad address''"
    by (simp_all add: no_table_image_def image_simps)
  then show ?thesis
    using main_hashtable_fails [of no_table_image 0]
    by (simp add: failure_def sizeof_int_def sizeof_ulong_def)
qed

subsection \<open>C9: the libkvm descriptor\<close>

text \<open>
  Claim C9 says that the descriptor is released on every exit path. The program has
  no call of \<^verbatim>\<open>kvm_close\<close>. C9 as amended: the descriptor is opened by the first
  libkvm call of the scan, and no exit path releases it: no run calls \<^verbatim>\<open>kvm_close\<close>,
  and the descriptor stays open until the process ends.
\<close>

theorem handle_is_never_closed:
  assumes "main env = Some out"
  shows "hd (kvm_calls out) = KvmOpenfiles \<and> KvmClose \<notin> set (kvm_calls out)"
  using main_outcome [OF assms] by simp

text \<open>The path that ends with a failing read.\<close>

theorem handle_is_never_closed_witness:
  "main broken_chain_image =
     Some \<lparr> out_stdout = [], out_stderr = ''Failed to read lockfile: Bad address'',
            exit_code = 1,
            kvm_calls = [KvmOpenfiles, KvmNlist, KvmRead 0x2000 4, KvmRead 0x1000 8,
                         KvmRead 0x3000 8, KvmRead 0x4000 96, KvmRead 0x5000 96] \<rparr>
   \<and> KvmClose \<notin> set [KvmOpenfiles, KvmNlist, KvmRead 0x2000 4, KvmRead 0x1000 8,
                        KvmRead 0x3000 8, KvmRead 0x4000 96, KvmRead 0x5000 (96 :: nat)]"
  using handle_is_never_closed [OF broken_chain_run] broken_chain_run by simp

text \<open>
  Against C9 as stated: the successful scan of a table with one struct returns without
  a call of \<^verbatim>\<open>kvm_close\<close>.
\<close>

theorem successful_scan_leaves_handle_open:
  "main orphan_image =
     Some \<lparr> out_stdout = ''Total file handles: 1'' @ newline @ ''Lost file handles: 1'' @ newline,
            out_stderr = [], exit_code = 0,
            kvm_calls = [KvmOpenfiles, KvmNlist, KvmRead 0x2000 4, KvmRead 0x1000 8,
                         KvmRead 0x3000 8, KvmRead 0x4000 96] \<rparr>
   \<and> KvmClose \<notin> set [KvmOpenfiles, KvmNlist, KvmRead 0x2000 4, KvmRead 0x1000 8,
                        KvmRead 0x3000 8, KvmRead 0x4000 (96 :: nat)]"
  using orphan_run by simp

subsection \<open>C10: the order between the counters\<close>

text \<open>
  Claim C10 says that \<open>0 \<le> lost \<le> total\<close> holds throughout the scan. Both
  counters are \<^verbatim>\<open>int\<close>. C10 as amended: both counters are zero when the loop over the
  buckets starts; as long as the total is below \<^verbatim>\<open>INT_MAX\<close>, each struct read
  increments the total by exactly one and the lost count by one if the struct is lost
  and by nothing otherwise, and \<open>0 \<le> lost \<le> total\<close> is kept; logging a call and
  writing into \<^verbatim>\<open>cur\<close> or \<^verbatim>\<open>lockfile\<close> change neither; in every scan that ends
  normally after reading fewer than \<open>2 ^ 31\<close> structs the final total is the number
  of structs read and the final lost count is between 0 and the final total; and so it
  is for a table with at most \<open>2 ^ 31 - 1\<close> structs, where the final counts are
  the number of structs and the number of lost structs of the table.
\<close>

theorem counters_stay_ordered:
  "total_lockfiles (init_state env) = 0 \<and> leaked_lockfiles (init_state env) = 0
   \<and> counters_ok (init_state env)
   \<and> (openfiles_ok env \<and> nlist_readable env \<and> hashsize_at env = Some n \<and> hashtable_at env = Some t
        \<longrightarrow> main env = map_option finish (for_bucket env n t 0 (init_state env)))
   \<and> (counters_ok s \<and> sint (total_lockfiles s) < 2147483647 \<longrightarrow>
        counters_ok (count_lockfile lockfile s)
        \<and> sint (total_lockfiles (count_lockfile lockfile s)) = sint (total_lockfiles s) + 1
        \<and> sint (leaked_lockfiles (count_lockfile lockfile s))
            = sint (leaked_lockfiles s) + (if is_lost lockfile then 1 else 0))
   \<and> (counters_ok (log_call c s) \<longleftrightarrow> counters_ok s)
   \<and> (counters_ok (s\<lparr>lockfile_bytes := lbuf, cur_bytes := cbuf\<rparr>) \<longleftrightarrow> counters_ok s)
   \<and> (main env' = Some out \<and> exit_code out = 0
        \<and> length (filter is_struct_read (kvm_calls out)) < 2147483648 \<longrightarrow>
        (\<exists>s'. out = report s' \<and> counters_ok s'
           \<and> sint (total_lockfiles s') = int (length (filter is_struct_read (kvm_calls out)))))
   \<and> (table_image env cs \<and> length (concat cs) < 2147483648 \<longrightarrow>
        (\<exists>s'. main env = Some (report s') \<and> counters_ok s'
           \<and> sint (total_lockfiles s') = int (length (concat cs))
           \<and> sint (leaked_lockfiles s') = int (length (filter is_lost (concat cs)))))"
proof (intro conjI impI)
  show "total_lockfiles (init_state env) = 0" "leaked_lockfiles (init_state env) = 0"
    by (simp_all add: init_state_def)
  show "counters_ok (init_state env)"
    by (simp add: counters_ok_def init_state_def)
  show "counters_ok (log_call c s) \<longleftrightarrow> counters_ok s"
    by (simp add: counters_ok_def)
  show "counters_ok (s\<lparr>lockfile_bytes := lbuf, cur_bytes := cbuf\<rparr>) \<longleftrightarrow> counters_ok s"
    by (simp add: counters_ok_def)
next
  assume "openfiles_ok env \<and> nlist_readable env \<and> hashsize_at env = Some n \<and> hashtable_at env = Some t"
  then show "main env = map_option finish (for_bucket env n t 0 (init_state env))"
    by (simp add: main_scan)
next
  assume a: "counters_ok s \<and> sint (total_lockfiles s) < 2147483647"
  then show "counters_ok (count_lockfile lockfile s)"
    and "sint (total_lockfiles (count_lockfile lockfile s)) = sint (total_lockfiles s) + 1"
    and "sint (leaked_lockfiles (count_lockfile lockfile s))
            = sint (leaked_lockfiles s) + (if is_lost lockfile then 1 else 0)"
    using count_lockfile_counters_ok [of s lockfile] by blast+
next
  let ?k = "length (filter is_struct_read (kvm_calls out))"
  assume a: "main env' = Some out \<and> exit_code out = 0 \<and> ?k < 2147483648"
  then obtain s' l where s': "out = report s'" "l \<le> ?k"
    "total_lockfiles s' = of_nat ?k" "leaked_lockfiles s' = of_nat l"
    using main_counted [of env' out] by blast
  from a s'(2) have "l < 2147483648"
    by simp
  with a s'(3,4) have "sint (total_lockfiles s') = int ?k" "sint (leaked_lockfiles s') = int l"
    by (simp_all add: sint_of_nat_small)
  with s'(1,2) show "\<exists>s'. out = report s' \<and> counters_ok s'
      \<and> sint (total_lockfiles s') = int ?k"
    by (auto simp: counters_ok_def)
next
  assume "table_image env cs \<and> length (concat cs) < 2147483648"
  then obtain s' where s': "main env = Some (report s')"
    "sint (total_lockfiles s') = int (length (concat cs))"
    "sint (leaked_lockfiles s') = int (length (filter is_lost (concat cs)))"
    using main_table_image_stdout [of env cs] by blast
  moreover have "counters_ok s'"
    using s'(2,3) by (simp add: counters_ok_def)
  ultimately show "\<exists>s'. main env = Some (report s') \<and> counters_ok s'
           \<and> sint (total_lockfiles s') = int (length (concat cs))
           \<and> sint (leaked_lockfiles s') = int (length (filter is_lost (concat cs)))"
    by blast
qed

text \<open>
  The table with two buckets, a step from its initial state, and the scan of the image
  with two buckets whose second struct is read short.
\<close>

theorem counters_stay_ordered_witness:
  "counters_ok (init_state two_bucket_image)
   \<and> sint (total_lockfiles (init_state two_bucket_image)) < 2147483647
   \<and> counters_ok (count_lockfile (decode_nfslockfile (replicate 96 0)) (init_state two_bucket_image))
   \<and> sint (total_lockfiles
        (count_lockfile (decode_nfslockfile (replicate 96 0)) (init_state two_bucket_image))) = 1
   \<and> sint (leaked_lockfiles
        (count_lockfile (decode_nfslockfile (replicate 96 0)) (init_state two_bucket_image))) = 1
   \<and> openfiles_ok two_bucket_image \<and> nlist_readable two_bucket_image
   \<and> hashsize_at two_bucket_image = Some 2 \<and> hashtable_at two_bucket_image = Some 0x3000
   \<and> main two_bucket_image
       = map_option finish (for_bucket two_bucket_image 2 0x3000 0 (init_state two_bucket_image))
   \<and> table_image two_bucket_image
        [[decode_nfslockfile live_record, decode_nfslockfile (replicate 96 0)], []]
   \<and> (\<exists>s'. main two_bucket_image = Some (report s') \<and> counters_ok s'
         \<and> sint (total_lockfiles s') = 2 \<and> sint (leaked_lockfiles s') = 1)
   \<and> (\<exists>out s'. main short_second_image = Some out \<and> exit_code out = 0
         \<and> length (filter is_struct_read (kvm_calls out)) = 2
         \<and> out = report s' \<and> counters_ok s' \<and> sint (total_lockfiles s') = 2)"
proof -
  let ?cs = "[[decode_nfslockfile live_record, decode_nfslockfile (replicate 96 0)], []]"
  let ?lf = "decode_nfslockfile (replicate 96 0)"
  let ?out = "\<lparr> out_stdout = ''Total file handles: 2'' @ newline @ ''Lost file handles: 1'' @ newline,
              out_stderr = [], exit_code = 0,
              kvm_calls = [KvmOpenfiles, KvmNlist, KvmRead 0x2000 4, KvmRead 0x1000 8,
                           KvmRead 0x3000 8, KvmRead 0x4000 96, KvmRead 0x3008 8,
                           KvmRead 0x5000 96] \<rparr>"
  have start: "sint (total_lockfiles (init_state two_bucket_image)) < 2147483647"
    "sint (total_lockfiles (init_state two_bucket_image)) = 0"
    "sint (leaked_lockfiles (init_state two_bucket_image)) = 0"
    by (simp_all add: init_state_def)
  have counts: "length (concat ?cs) < 2147483648" "int (length (concat ?cs)) = 2"
    "int (length (filter is_lost (concat ?cs))) = 1"
    by (simp_all add: two_bucket_lost)
  have img: "openfiles_ok two_bucket_image" "nlist_readable two_bucket_image"
    "hashsize_at two_bucket_image = Some 2" "hashtable_at two_bucket_image = Some 0x3000"
    by (simp_all add: two_bucket_image_def image_simps)
  have reads: "length (filter is_struct_read (kvm_calls ?out)) = 2" "exit_code ?out = 0"
    by (simp_all add: sizeof_nfslockfile_def)
  note inst = counters_stay_ordered
    [where env = two_bucket_image and n = 2 and t = "0x3000"
       and s = "init_state two_bucket_image" and lockfile = ?lf and c = KvmOpenfiles
       and lbuf = "[]" and cbuf = "[]" and env' = short_second_image and out = ?out and cs = ?cs]
  have fewer: "length (filter is_struct_read (kvm_calls ?out)) < 2147483648"
    by (simp add: sizeof_nfslockfile_def)
  from inst short_second_run reads(2) fewer
  have "\<exists>s'. ?out = report s' \<and> counters_ok s'
      \<and> sint (total_lockfiles s') = int (length (filter is_struct_read (kvm_calls ?out)))"
    by blast
  then have run: "\<exists>out s'. main short_second_image = Some out \<and> exit_code out = 0
         \<and> length (filter is_struct_read (kvm_calls out)) = 2
         \<and> out = report s' \<and> counters_ok s' \<and> sint (total_lockfiles s') = 2"
    using short_second_run reads by auto
  from inst have ok0: "counters_ok (init_state two_bucket_image)"
    by blast
  from inst ok0 start(1)
  have "counters_ok (count_lockfile ?lf (init_state two_bucket_image))
      \<and> sint (total_lockfiles (count_lockfile ?lf (init_state two_bucket_image)))
          = sint (total_lockfiles (init_state two_bucket_image)) + 1
      \<and> sint (leaked_lockfiles (count_lockfile ?lf (init_state two_bucket_image)))
          = sint (leaked_lockfiles (init_state two_bucket_image)) + (if is_lost ?lf then 1 else 0)"
    by blast
  then have step: "counters_ok (count_lockfile ?lf (init_state two_bucket_image))"
    "sint (total_lockfiles (count_lockfile ?lf (init_state two_bucket_image))) = 1"
    "sint (leaked_lockfiles (count_lockfile ?lf (init_state two_bucket_image))) = 1"
    using start(2,3) two_bucket_lost(2) by simp_all
  from inst img
  have scan: "main two_bucket_image
      = map_option finish (for_bucket two_bucket_image 2 0x3000 0 (init_state two_bucket_image))"
    by blast
  from inst two_bucket_table counts(1)
  have "\<exists>s'. main two_bucket_image = Some (report s') \<and> counters_ok s'
      \<and> sint (total_lockfiles s') = int (length (concat ?cs))
      \<and> sint (leaked_lockfiles s') = int (length (filter is_lost (concat ?cs)))"
    by blast
  then have table: "\<exists>s'. main two_bucket_image = Some (report s') \<and> counters_ok s'
      \<and> sint (total_lockfiles s') = 2 \<and> sint (leaked_lockfiles s') = 1"
    unfolding counts(2,3) .
  note parts = ok0 start(1) step img scan two_bucket_table table run
  show ?thesis
    by (intro conjI) (rule parts)+
qed

text \<open>
  Against C10 as stated: for the table with \<open>2 ^ 31\<close> structs the reported total is
  \<^verbatim>\<open>INT_MIN\<close>, below zero and below the reported lost count.
\<close>

theorem counters_wrap_after_int_max:
  "length (concat [big_chain]) = 2147483648
   \<and> map_option out_stdout (main big_image) =
       Some (''Total file handles: '' @ show_int (- 2147483648) @ newline
             @ ''Lost file handles: '' @ show_int 2147483647 @ newline)"
proof -
  from big_image_run obtain s where
    "main big_image = Some (report s)"
    "total_lockfiles s = 0x80000000" "leaked_lockfiles s = 0x7FFFFFFF"
    by blast
  then show ?thesis
    by (simp add: big_chain_counts stdout_report)
qed

end
